theory Spec2Isabelle
  imports Main "HOL-Library.Sublist"
begin

section \<open>JavaScript string primitives used by the plugin\<close>

text \<open>
  Strings are lists of code units; the model covers the code units 0..255 (the type
  \<open>char\<close>). Page numbers are mathematical integers; their decimal rendering agrees
  with JavaScript's \<open>String(n)\<close> for every integer of magnitude up to \<open>2^53\<close> (beyond
  that JavaScript rounds the digits, and from \<open>10^21\<close> on it writes an exponent).
\<close>

definition digitChar :: "nat \<Rightarrow> char" where
  "digitChar d = ''0123456789'' ! d"

fun showNat :: "nat \<Rightarrow> string" where
  "showNat n = (if n < 10 then [digitChar n] else showNat (n div 10) @ [digitChar (n mod 10)])"

declare showNat.simps [simp del]

definition showInt :: "int \<Rightarrow> string" where
  "showInt i = (if i < 0 then CHR ''-'' # showNat (nat (- i)) else showNat (nat i))"

definition isDigit :: "char \<Rightarrow> bool" where
  "isDigit c \<longleftrightarrow> c \<in> set ''0123456789''"

text \<open>\<open>String.prototype.trim\<close>: white space and line terminators among the code units 0..255.\<close>

definition isWhiteSpace :: "char \<Rightarrow> bool" where
  "isWhiteSpace c \<longleftrightarrow>
     c \<in> {CHR 0x09, CHR 0x0A, CHR 0x0B, CHR 0x0C, CHR 0x0D, CHR 0x20, CHR 0xA0}"

definition trim :: "string \<Rightarrow> string" where
  "trim s = rev (dropWhile isWhiteSpace (rev (dropWhile isWhiteSpace s)))"

text \<open>
  First occurrence of a literal pattern: the text before it and the text after it
  (what a regular expression consisting of a literal finds, scanning start positions
  from the left).
\<close>

fun search :: "string \<Rightarrow> string \<Rightarrow> (string \<times> string) option" where
  "search pat [] = (if pat = [] then Some ([], []) else None)"
| "search pat (c # cs) =
     (if prefix pat (c # cs) then Some ([], drop (length pat) (c # cs))
      else (case search pat cs of
              None \<Rightarrow> None
            | Some (pre, post) \<Rightarrow> Some (c # pre, post)))"

text \<open>
  \<open>GetSubstitution\<close> of \<open>String.prototype.replace\<close> for a pattern without capture
  groups: \<open>$$\<close> is a dollar sign, \<open>$&\<close> the matched text, \<open>$`\<close> the text before the
  match, \<open>$'\<close> the text after it; every other \<open>$\<close> stays as it is.
\<close>

fun getSubstitution :: "string \<Rightarrow> string \<Rightarrow> string \<Rightarrow> string \<Rightarrow> string" where
  "getSubstitution matched pre post [] = []"
| "getSubstitution matched pre post [c] = [c]"
| "getSubstitution matched pre post (c # d # cs) =
     (if c = CHR ''$'' then
        (if d = CHR ''$'' then CHR ''$'' # getSubstitution matched pre post cs
         else if d = CHR ''&'' then matched @ getSubstitution matched pre post cs
         else if d = CHR 0x60 then pre @ getSubstitution matched pre post cs
         else if d = CHR 0x27 then post @ getSubstitution matched pre post cs
         else c # getSubstitution matched pre post (d # cs))
      else c # getSubstitution matched pre post (d # cs))"

section \<open>Per-page notes kept by regular expressions (\<open>loadNotes\<close>, \<open>saveNotes\<close>)\<close>

definition pageHeader :: "int \<Rightarrow> string" where
  "pageHeader pageNumber = ''## Page '' @ showInt pageNumber"

text \<open>
  The lazy tail \<open>[\s\S]*?(?=## Page|$)\<close>: the shortest text followed by \<open>## Page\<close>
  or by the end of the input. The result is that text and what follows it.
\<close>

definition lazyUntilPage :: "string \<Rightarrow> string \<times> string" where
  "lazyUntilPage s =
     (case search ''## Page'' s of
        Some (sec, after) \<Rightarrow> (sec, ''## Page'' @ after)
      | None \<Rightarrow> (s, []))"

text \<open>
  The expression \<open>## Page N\n[\s\S]*?(?=## Page|$)\<close> applied to a text: the tail always
  matches, so the match starts at the first occurrence of the header line. The result
  is the text before the match, the section after the header, and the text after the match.
\<close>

definition pageRegex :: "int \<Rightarrow> string \<Rightarrow> (string \<times> string \<times> string) option" where
  "pageRegex pageNumber content =
     (case search (pageHeader pageNumber @ ''\<newline>'') content of
        None \<Rightarrow> None
      | Some (pre, rest) \<Rightarrow>
          (case lazyUntilPage rest of (sec, post) \<Rightarrow> Some (pre, sec, post)))"

text \<open>The text computed by \<open>loadNotes\<close> from the content of the notes file.\<close>

definition extractSection :: "string \<Rightarrow> int \<Rightarrow> string option" where
  "extractSection content pageNumber =
     (case pageRegex pageNumber content of
        None \<Rightarrow> None
      | Some (pre, sec, post) \<Rightarrow> Some (trim sec))"

text \<open>The text computed by \<open>saveNotes\<close> from the content of the notes file.\<close>

definition upsertSection :: "string \<Rightarrow> int \<Rightarrow> string \<Rightarrow> string" where
  "upsertSection content pageNumber notes =
     (let newPageContent = pageHeader pageNumber @ ''\<newline>'' @ notes @ ''\<newline>\<newline>''
      in case pageRegex pageNumber content of
           Some (pre, sec, post) \<Rightarrow>
             pre @ getSubstitution (pageHeader pageNumber @ ''\<newline>'' @ sec) pre post
                     (trim newPageContent) @ post
         | None \<Rightarrow> content @ newPageContent)"

text \<open>The file store of the host: files by path, and the paths that refuse a write.\<close>

record vault =
  files :: "string \<rightharpoonup> string"
  locked :: "string \<Rightarrow> bool"

datatype ioError = NotFound | WriteFailed

definition adapter_read :: "vault \<Rightarrow> string \<Rightarrow> ioError + string" where
  "adapter_read v path = (case files v path of None \<Rightarrow> Inl NotFound | Some c \<Rightarrow> Inr c)"

definition adapter_write :: "vault \<Rightarrow> string \<Rightarrow> string \<Rightarrow> ioError + vault" where
  "adapter_write v path c =
     (if locked v path then Inl WriteFailed else Inr (v\<lparr>files := (files v)(path \<mapsto> c)\<rparr>))"

text \<open>
  \<open>currentPdfPath\<close> is a string or \<open>null\<close>; both \<open>null\<close> and the empty string are falsy.
\<close>

definition loadNotes :: "string option \<Rightarrow> vault \<Rightarrow> int \<Rightarrow> string option" where
  "loadNotes currentPdfPath v pageNumber =
     (case currentPdfPath of
        None \<Rightarrow> None
      | Some path \<Rightarrow>
          if path = [] then None
          else (case adapter_read v (path @ ''-notes.md'') of
                  Inl e \<Rightarrow> None
                | Inr content \<Rightarrow> extractSection content pageNumber))"

text \<open>\<open>saveNotes\<close> returns the file store and the notices shown to the user.\<close>

definition saveNotes :: "string option \<Rightarrow> vault \<Rightarrow> int \<Rightarrow> string \<Rightarrow> vault \<times> string list" where
  "saveNotes currentPdfPath v pageNumber notes =
     (case currentPdfPath of
        None \<Rightarrow> (v, [])
      | Some path \<Rightarrow>
          if path = [] then (v, [])
          else
            (let notesFile = path @ ''-notes.md'';
                 content = (case adapter_read v notesFile of
                              Inl e \<Rightarrow> ''# PDF Notes\<newline>\<newline>''
                            | Inr c \<Rightarrow> c)
             in case adapter_write v notesFile (upsertSection content pageNumber notes) of
                  Inl e \<Rightarrow> (v, [''Error saving notes''])
                | Inr v' \<Rightarrow> (v', [])))"

section \<open>The notes document of the page-notes view (\<open>saveAllNotesToFile\<close>, \<open>parseExistingNotes\<close>)\<close>

definition placeholder :: string where
  "placeholder = ''_No notes for this page_''"

definition isLineTerminator :: "char \<Rightarrow> bool" where
  "isLineTerminator c \<longleftrightarrow> c \<in> {CHR 0x0A, CHR 0x0D}"

text \<open>
  The expression \<open>^## Page (\d+)$\<close> with the flags \<open>g\<close> and \<open>m\<close>, tried at the start
  of a text whose first position is a line start: the literal, the longest run of digits
  (after which a shorter run cannot be followed by a line end), then the end of the input
  or a line terminator. The result is the captured digits and the text after the match.
\<close>

definition matchMarker :: "string \<Rightarrow> (string \<times> string) option" where
  "matchMarker s =
     (if prefix ''## Page '' s then
        (let r = drop 8 s; ds = takeWhile isDigit r; rest = dropWhile isDigit r
         in if ds \<noteq> [] \<and> (rest = [] \<or> isLineTerminator (hd rest)) then Some (ds, rest)
            else None)
      else None)"

text \<open>
  \<open>String.prototype.split\<close> with that expression: the scan moves through the text one
  position at a time, \<open>bol\<close> says whether the position is a line start and \<open>acc\<close> holds
  (reversed) the text since the last match. A match closes the current piece and adds
  the captured digits; the scan goes on after the match, which is not a line start.
\<close>

function splitScan :: "bool \<Rightarrow> string \<Rightarrow> string \<Rightarrow> string list" where
  "splitScan bol acc [] = [rev acc]"
| "splitScan bol acc (c # cs) =
     (case (if bol then matchMarker (c # cs) else None) of
        Some (ds, rest) \<Rightarrow> rev acc # ds # splitScan False [] rest
      | None \<Rightarrow> splitScan (isLineTerminator c) (c # acc) cs)"
  by pat_completeness auto
termination
proof (relation "measure (\<lambda>(bol, acc, s). length s)")
  fix bol :: bool and acc :: string and c :: char and cs :: string
    and m :: "string \<times> string" and ds rest :: string
  assume found: "(if bol then matchMarker (c # cs) else None) = Some m" and m: "(ds, rest) = m"
  from found m have p: "prefix ''## Page '' (c # cs)"
    and r: "rest = dropWhile isDigit (drop 8 (c # cs))"
    by (auto simp: matchMarker_def Let_def split: if_splits)
  from p have "8 \<le> length (c # cs)"
    using prefix_length_le by fastforce
  moreover have "length rest \<le> length (drop 8 (c # cs))"
    unfolding r by (rule length_dropWhile_le)
  ultimately show "((False, [], rest), (bol, acc, c # cs)) \<in> measure (\<lambda>(bol, acc, s). length s)"
    by simp
qed auto

definition splitPages :: "string \<Rightarrow> string list" where
  "splitPages content = splitScan True [] content"

definition digitVal :: "char \<Rightarrow> nat" where
  "digitVal c = of_char c - 48"

text \<open>\<open>parseInt\<close> on a run of decimal digits (exact; JavaScript rounds above \<open>2^53\<close>).\<close>

definition parseInt :: "string \<Rightarrow> nat" where
  "parseInt s = foldl (\<lambda>n c. 10 * n + digitVal c) 0 (takeWhile isDigit s)"

text \<open>
  The loop of \<open>parseExistingNotes\<close> over the pieces after the first one: digits and
  section text in turn. A missing section text reads as the empty string.
\<close>

fun parseLoop :: "(nat \<rightharpoonup> string) \<Rightarrow> string list \<Rightarrow> (nat \<rightharpoonup> string)" where
  "parseLoop notes [] = notes"
| "parseLoop notes [ds] = notes(parseInt ds \<mapsto> [])"
| "parseLoop notes (ds # t # pieces) =
     parseLoop (if trim t \<noteq> placeholder then notes(parseInt ds \<mapsto> trim t) else notes) pieces"

definition parseExistingNotes :: "string \<Rightarrow> (nat \<rightharpoonup> string)" where
  "parseExistingNotes content = parseLoop Map.empty (tl (splitPages content))"

text \<open>The view, the timers of the runtime and the log of the writes to the notes file.\<close>

record app =
  pageNotes :: "nat \<rightharpoonup> string"
  currentPage :: nat
  notesEditor :: "string option"
  currentNotesFile :: "string option"
  currentPdf :: "nat option"
  currentPdfFile :: "(string \<times> string) option"
  autoSaveOnClose :: bool
  timeout :: "nat option"
  timers :: "(nat \<times> nat) list"
  nextTimer :: nat
  modified :: "string list"

definition pdfName :: "app \<Rightarrow> string" where
  "pdfName a = (case currentPdfFile a of
                  None \<Rightarrow> ''PDF''
                | Some (basename, name) \<Rightarrow> if basename = [] then ''PDF'' else basename)"

definition pdfFileName :: "app \<Rightarrow> string" where
  "pdfFileName a = (case currentPdfFile a of
                      None \<Rightarrow> ''undefined''
                    | Some (basename, name) \<Rightarrow> name)"

definition numPages :: "app \<Rightarrow> nat" where
  "numPages a = (case currentPdf a of None \<Rightarrow> 0 | Some n \<Rightarrow> n)"

definition pageBlock :: "(nat \<rightharpoonup> string) \<Rightarrow> nat \<Rightarrow> string" where
  "pageBlock notes page =
     ''## Page '' @ showNat page @ ''\<newline>\<newline>'' @
     (case notes page of
        Some body \<Rightarrow> if body \<noteq> [] then body @ ''\<newline>\<newline>''
                     else placeholder @ ''\<newline>\<newline>''
      | None \<Rightarrow> placeholder @ ''\<newline>\<newline>'')"

function pagesLoop :: "(nat \<rightharpoonup> string) \<Rightarrow> nat \<Rightarrow> nat \<Rightarrow> string \<Rightarrow> string" where
  "pagesLoop notes page n fullContent =
     (if page \<le> n then pagesLoop notes (Suc page) n (fullContent @ pageBlock notes page)
      else fullContent)"
  by pat_completeness auto
termination
  by (relation "measure (\<lambda>(notes, page, n, fullContent). Suc n - page)") auto

declare pagesLoop.simps [simp del]

definition notesPreamble :: "string \<Rightarrow> string \<Rightarrow> nat \<Rightarrow> string" where
  "notesPreamble name fileName n =
     ''# '' @ name @ '' - Notes\<newline>\<newline>'' @
     ''**PDF:** [['' @ fileName @ '']]\<newline>'' @
     ''**Total Pages:** '' @ showNat n @ ''\<newline>\<newline>''"

definition notesDocument :: "app \<Rightarrow> string" where
  "notesDocument a =
     pagesLoop (pageNotes a) 1 (numPages a) (notesPreamble (pdfName a) (pdfFileName a) (numPages a))"

definition saveCurrentPageNotes :: "app \<Rightarrow> app" where
  "saveCurrentPageNotes a =
     (case notesEditor a of
        Some currentContent \<Rightarrow> a\<lparr>pageNotes := (pageNotes a)(currentPage a \<mapsto> currentContent)\<rparr>
      | None \<Rightarrow> a)"

definition saveAllNotesToFile :: "app \<Rightarrow> app" where
  "saveAllNotesToFile a =
     (if currentNotesFile a = None then a
      else (let a' = saveCurrentPageNotes a
            in a'\<lparr>modified := modified a' @ [notesDocument a']\<rparr>))"

text \<open>The text put into the editor for the current page.\<close>

definition editorContent :: "(nat \<rightharpoonup> string) \<Rightarrow> nat \<Rightarrow> string" where
  "editorContent notes page = (case notes page of Some body \<Rightarrow> body | None \<Rightarrow> [])"

section \<open>The debounced save and the close of the view\<close>

text \<open>
  \<open>setTimeout\<close> adds a timer with a fresh identifier, due one interval after the present
  time; \<open>clearTimeout\<close> removes the timer with the given identifier, if there is one.
\<close>

definition debounceInterval :: nat where
  "debounceInterval = 1000"

definition clearTimeout :: "nat option \<Rightarrow> app \<Rightarrow> app" where
  "clearTimeout t a =
     (case t of None \<Rightarrow> a | Some i \<Rightarrow> a\<lparr>timers := filter (\<lambda>(j, due). j \<noteq> i) (timers a)\<rparr>)"

definition setTimeout :: "nat \<Rightarrow> app \<Rightarrow> app" where
  "setTimeout now a =
     a\<lparr>timeout := Some (nextTimer a),
       timers := timers a @ [(nextTimer a, now + debounceInterval)],
       nextTimer := Suc (nextTimer a)\<rparr>"

definition debouncedSave :: "nat \<Rightarrow> app \<Rightarrow> app" where
  "debouncedSave now a = setTimeout now (clearTimeout (timeout a) a)"

text \<open>The update listener of the editor, run when the text of the editor changes.\<close>

definition docChanged :: "nat \<Rightarrow> string \<Rightarrow> app \<Rightarrow> app" where
  "docChanged now text a =
     (case notesEditor a of
        None \<Rightarrow> a
      | Some old \<Rightarrow>
          debouncedSave now
            (a\<lparr>notesEditor := Some text, pageNotes := (pageNotes a)(currentPage a \<mapsto> text)\<rparr>))"

text \<open>
  The event loop: the timers that are due at a time run, in the order they were set,
  before the event of that time; after the last event the remaining timers run. The
  function given to \<open>setTimeout\<close> by \<open>debouncedSave\<close> calls \<open>saveAllNotesToFile\<close>.
\<close>

fun fireTimers :: "(nat \<times> nat) list \<Rightarrow> app \<Rightarrow> app" where
  "fireTimers [] a = a"
| "fireTimers ((i, due) # ts) a = fireTimers ts (saveAllNotesToFile a)"

definition advance :: "nat \<Rightarrow> app \<Rightarrow> app" where
  "advance now a =
     fireTimers (filter (\<lambda>(i, due). due \<le> now) (timers a))
       (a\<lparr>timers := filter (\<lambda>(i, due). \<not> due \<le> now) (timers a)\<rparr>)"

text \<open>
  \<open>onClose\<close>. With auto-save on close enabled and a notes file open, it stores the text
  of the editor, calls \<open>saveAllNotesToFile\<close>, which hands the document to
  \<open>vault.modify\<close>, and waits for the write; \<open>written\<close> is the time at which the write is
  done and \<open>onClose\<close> goes on. The timers that fall due while it waits run before it goes
  on. Then comes the clean-up. Otherwise nothing is awaited and the clean-up follows at once.
  \<open>modified\<close> logs the calls of \<open>vault.modify\<close> in the order in which they are made.
\<close>

definition onClose :: "nat \<Rightarrow> app \<Rightarrow> app" where
  "onClose written a =
     (let a1 = (if autoSaveOnClose a \<and> currentNotesFile a \<noteq> None
                then advance written (saveAllNotesToFile (saveCurrentPageNotes a)) else a)
      in a1\<lparr>currentPdf := None, notesEditor := None\<rparr>)"

definition settle :: "app \<Rightarrow> app" where
  "settle a = fireTimers (timers a) (a\<lparr>timers := []\<rparr>)"

text \<open>
  The events: a change of the text of the editor at a time, and the close of the view at
  a time, with the time at which the write it waits for is done.
\<close>

datatype event = DocChanged nat string | Close nat nat

fun eventTime :: "event \<Rightarrow> nat" where
  "eventTime (DocChanged t text) = t"
| "eventTime (Close t written) = t"

fun handle :: "event \<Rightarrow> app \<Rightarrow> app" where
  "handle (DocChanged t text) a = docChanged t text (advance t a)"
| "handle (Close t written) a = onClose written (advance t a)"

fun run :: "event list \<Rightarrow> app \<Rightarrow> app" where
  "run [] a = a"
| "run (e # es) a = run es (handle e a)"

text \<open>
  A burst: every event is a change of the text, no earlier than the previous event and
  less than one interval after it.
\<close>

fun burst :: "nat \<Rightarrow> event list \<Rightarrow> bool" where
  "burst prev [] = True"
| "burst prev (DocChanged t text # es) = (prev \<le> t \<and> t < prev + debounceInterval \<and> burst t es)"
| "burst prev (Close t written # es) = False"

fun lastText :: "string \<Rightarrow> event list \<Rightarrow> string" where
  "lastText x [] = x"
| "lastText x (DocChanged t text # es) = lastText text es"
| "lastText x (Close t written # es) = lastText x es"

fun lastTime :: "nat \<Rightarrow> event list \<Rightarrow> nat" where
  "lastTime t0 [] = t0"
| "lastTime t0 (e # es) = lastTime (eventTime e) es"

text \<open>A view with a two-page document open, used in the examples.\<close>

definition exampleApp :: app where
  "exampleApp =
     \<lparr>pageNotes = [1 \<mapsto> ''old''], currentPage = 1, notesEditor = Some ''old'',
      currentNotesFile = Some ''doc_notes.md'', currentPdf = Some 2,
      currentPdfFile = Some (''doc'', ''doc.pdf''), autoSaveOnClose = True,
      timeout = None, timers = [], nextTimer = 0, modified = []\<rparr>"

section \<open>The debounced save of the text area (\<open>loadNotesEditor\<close>)\<close>

text \<open>
  The earlier view keeps the whole notes file in a text area; \<open>loadNotesEditor\<close> gives
  it an input listener with a timer of its own, and \<open>onClose\<close> writes the text of the
  area. The state: the text of the area, the notes file, the auto-save setting, the timer
  variable of the listener, the timers of the runtime and the log of the writes.
\<close>

record notesArea =
  textareaValue :: string
  areaNotesFile :: "string option"
  areaAutoSaveOnClose :: bool
  saveTimeout :: "nat option"
  areaTimers :: "(nat \<times> nat) list"
  areaNextTimer :: nat
  areaModified :: "string list"

definition textareaInput :: "nat \<Rightarrow> string \<Rightarrow> notesArea \<Rightarrow> notesArea" where
  "textareaInput now v s =
     (let s1 = s\<lparr>textareaValue := v\<rparr>;
          s2 = (case saveTimeout s1 of
                  None \<Rightarrow> s1
                | Some i \<Rightarrow> s1\<lparr>areaTimers := filter (\<lambda>(j, due). j \<noteq> i) (areaTimers s1)\<rparr>)
      in s2\<lparr>saveTimeout := Some (areaNextTimer s2),
            areaTimers := areaTimers s2 @ [(areaNextTimer s2, now + 1000)],
            areaNextTimer := Suc (areaNextTimer s2)\<rparr>)"

text \<open>The function given to \<open>setTimeout\<close> by the listener.\<close>

definition saveTimeoutFired :: "notesArea \<Rightarrow> notesArea" where
  "saveTimeoutFired s =
     (if areaNotesFile s = None then s
      else s\<lparr>areaModified := areaModified s @ [textareaValue s]\<rparr>)"

fun areaFire :: "(nat \<times> nat) list \<Rightarrow> notesArea \<Rightarrow> notesArea" where
  "areaFire [] s = s"
| "areaFire ((i, due) # ts) s = areaFire ts (saveTimeoutFired s)"

definition areaAdvance :: "nat \<Rightarrow> notesArea \<Rightarrow> notesArea" where
  "areaAdvance now s =
     areaFire (filter (\<lambda>(i, due). due \<le> now) (areaTimers s))
       (s\<lparr>areaTimers := filter (\<lambda>(i, due). \<not> due \<le> now) (areaTimers s)\<rparr>)"

definition areaSettle :: "notesArea \<Rightarrow> notesArea" where
  "areaSettle s = areaFire (areaTimers s) (s\<lparr>areaTimers := []\<rparr>)"

text \<open>
  \<open>onClose\<close> of this view: with auto-save on close enabled and a notes file open it
  writes the text of the area and waits for the write, which is done at the time
  \<open>written\<close>; the timers that fall due while it waits run in the meantime.
\<close>

definition areaOnClose :: "nat \<Rightarrow> notesArea \<Rightarrow> notesArea" where
  "areaOnClose written s =
     (if areaAutoSaveOnClose s \<and> areaNotesFile s \<noteq> None
      then areaAdvance written (s\<lparr>areaModified := areaModified s @ [textareaValue s]\<rparr>) else s)"

fun areaRun :: "event list \<Rightarrow> notesArea \<Rightarrow> notesArea" where
  "areaRun [] s = s"
| "areaRun (DocChanged t v # es) s = areaRun es (textareaInput t v (areaAdvance t s))"
| "areaRun (Close t written # es) s = areaRun es (areaOnClose written (areaAdvance t s))"

text \<open>A text area on an open notes file, used in the examples.\<close>

definition exampleArea :: notesArea where
  "exampleArea =
     \<lparr>textareaValue = ''# doc - Notes'', areaNotesFile = Some ''doc_notes.md'',
      areaAutoSaveOnClose = True,
      saveTimeout = None, areaTimers = [], areaNextTimer = 0, areaModified = []\<rparr>"

section \<open>The pages that reach \<open>loadNotes\<close> and \<open>saveNotes\<close> (navigation of the view)\<close>

text \<open>The value of a decimal or hexadecimal digit; 36 for every other character.\<close>

definition digitValue :: "char \<Rightarrow> nat" where
  "digitValue c =
     (if isDigit c then of_char c - 48
      else if c \<in> set ''abcdef'' then of_char c - 87
      else if c \<in> set ''ABCDEF'' then of_char c - 55
      else 36)"

definition radixDigit :: "nat \<Rightarrow> char \<Rightarrow> bool" where
  "radixDigit r c \<longleftrightarrow> digitValue c < r"

text \<open>
  \<open>parseInt\<close> without a radix, on any text, as the page input uses it: white space at
  the start is skipped; a sign may follow; after \<open>0x\<close> or \<open>0X\<close> the digits are
  hexadecimal, otherwise decimal; the digits are read as far as they go, and without a
  digit the result is \<open>NaN\<close>, here \<open>None\<close>. (Exact; JavaScript rounds above \<open>2^53\<close>.)
\<close>

definition parseIntText :: "string \<Rightarrow> int option" where
  "parseIntText inputString =
     (let s = dropWhile isWhiteSpace inputString;
          negative = (s \<noteq> [] \<and> hd s = CHR ''-'');
          s1 = (if s \<noteq> [] \<and> (hd s = CHR ''+'' \<or> hd s = CHR ''-'') then tl s else s);
          hex = (prefix ''0x'' s1 \<or> prefix ''0X'' s1);
          r = (if hex then 16 else 10);
          z = takeWhile (radixDigit r) (if hex then drop 2 s1 else s1);
          mathInt = foldl (\<lambda>n c. r * n + digitValue c) 0 z
      in if z = [] then None
         else Some (if negative then - int mathInt else int mathInt))"

text \<open>
  The view of the per-page notes with a PDF loaded and the containers that \<open>onOpen\<close>
  makes in place: the current page, the number of pages
  of the PDF, the path of the PDF, the file store, the calls of \<open>renderPage\<close> that wait
  for their page, the page of the note section (the \<open>pageNumber\<close> that the handlers made
  by \<open>updateNoteSection\<close> hold), the text put into the note area, the notices shown,
  and the log of the calls of \<open>loadNotes\<close> and \<open>saveNotes\<close> with their page numbers.
\<close>

datatype notesOp = Load | Save

record pdfNoteView =
  viewCurrentPage :: int
  viewNumPages :: int
  viewPdfPath :: "string option"
  viewVault :: vault
  rendering :: "int list"
  notePage :: "int option"
  noteAreaValue :: string
  viewNotices :: "string list"
  notesCalls :: "(notesOp \<times> int) list"

text \<open>
  \<open>renderPage\<close> asks the PDF for the page and waits for it: the call joins those that
  wait. When the page has come and is drawn, the call sets the current page and calls
  \<open>updateNoteSection\<close> (\<open>pageRendered\<close>); when getting or drawing the page fails, the
  call shows a notice and leaves the current page (\<open>pageFailed\<close>).
\<close>

definition renderPage :: "int \<Rightarrow> pdfNoteView \<Rightarrow> pdfNoteView" where
  "renderPage pageNumber v = v\<lparr>rendering := rendering v @ [pageNumber]\<rparr>"

text \<open>
  \<open>updateNoteSection\<close> builds the note section of a page and loads its notes into the
  note area (the read of the notes file is taken as one step).
\<close>

definition updateNoteSection :: "int \<Rightarrow> pdfNoteView \<Rightarrow> pdfNoteView" where
  "updateNoteSection pageNumber v =
     (if viewPdfPath v = None \<or> viewPdfPath v = Some [] then v
      else v\<lparr>notePage := Some pageNumber,
             noteAreaValue := (case loadNotes (viewPdfPath v) (viewVault v) pageNumber of
                                 Some notes \<Rightarrow> notes
                               | None \<Rightarrow> []),
             notesCalls := notesCalls v @ [(Load, pageNumber)]\<rparr>)"

definition pageRendered :: "int \<Rightarrow> pdfNoteView \<Rightarrow> pdfNoteView" where
  "pageRendered pageNumber v =
     (if pageNumber \<in> set (rendering v)
      then updateNoteSection pageNumber
             (v\<lparr>rendering := remove1 pageNumber (rendering v), viewCurrentPage := pageNumber\<rparr>)
      else v)"

definition pageFailed :: "int \<Rightarrow> string \<Rightarrow> pdfNoteView \<Rightarrow> pdfNoteView" where
  "pageFailed pageNumber message v =
     (if pageNumber \<in> set (rendering v)
      then v\<lparr>rendering := remove1 pageNumber (rendering v),
             viewNotices := viewNotices v @ [''Error rendering page: '' @ message]\<rparr>
      else v)"

text \<open>The handlers of the previous-page button, the page input and the next-page button.\<close>

definition prevButtonClick :: "pdfNoteView \<Rightarrow> pdfNoteView" where
  "prevButtonClick v =
     (if viewCurrentPage v > 1 then renderPage (viewCurrentPage v - 1) v else v)"

definition pageInputChange :: "string \<Rightarrow> pdfNoteView \<Rightarrow> pdfNoteView" where
  "pageInputChange inputValue v =
     (case parseIntText inputValue of
        None \<Rightarrow> v
      | Some newPage \<Rightarrow>
          if newPage \<ge> 1 \<and> newPage \<le> viewNumPages v then renderPage newPage v else v)"

definition nextButtonClick :: "pdfNoteView \<Rightarrow> pdfNoteView" where
  "nextButtonClick v =
     (if viewCurrentPage v < viewNumPages v then renderPage (viewCurrentPage v + 1) v else v)"

text \<open>
  The links of the note section: the link to the previous page exists when the page of
  the section is above 1, the link to the next page when it is below the number of pages;
  the link to all notes calls \<open>showAllNotes\<close>, which loads the notes of every page in turn.
\<close>

definition prevLinkClick :: "pdfNoteView \<Rightarrow> pdfNoteView" where
  "prevLinkClick v =
     (case notePage v of
        None \<Rightarrow> v
      | Some pageNumber \<Rightarrow> if pageNumber > 1 then renderPage (pageNumber - 1) v else v)"

definition nextLinkClick :: "pdfNoteView \<Rightarrow> pdfNoteView" where
  "nextLinkClick v =
     (case notePage v of
        None \<Rightarrow> v
      | Some pageNumber \<Rightarrow>
          if pageNumber < viewNumPages v then renderPage (pageNumber + 1) v else v)"

definition showAllNotes :: "pdfNoteView \<Rightarrow> pdfNoteView" where
  "showAllNotes v =
     (if viewPdfPath v = None \<or> viewPdfPath v = Some [] then v
      else v\<lparr>notesCalls := notesCalls v @ map (\<lambda>i. (Load, i)) [1..viewNumPages v]\<rparr>)"

text \<open>
  The blur handler of the note area saves the text of the area for the page of the
  section (the read and the write of \<open>saveNotes\<close> are taken as one step).
\<close>

definition noteBlur :: "string \<Rightarrow> pdfNoteView \<Rightarrow> pdfNoteView" where
  "noteBlur noteText v =
     (case notePage v of
        None \<Rightarrow> v
      | Some pageNumber \<Rightarrow>
          (case saveNotes (viewPdfPath v) (viewVault v) pageNumber noteText of
             (vault', notices) \<Rightarrow>
               v\<lparr>viewVault := vault', viewNotices := viewNotices v @ notices,
                 noteAreaValue := noteText,
                 notesCalls := notesCalls v @ [(Save, pageNumber)]\<rparr>))"

text \<open>
  The events of the view: the clicks and inputs above, the calls of
  \<open>renderPage\<close> and \<open>updateNoteSection\<close> with the current page (zoom, fit mode, theme,
  loading from a folder), the end of a call of \<open>renderPage\<close>, and the blur of the note
  area with the text it holds.
\<close>

datatype viewEvent =
    PrevButton | PageInput string | NextButton
  | PrevLink | NextLink | ViewAllLink
  | Rerender | RefreshNotes
  | PageRendered int | PageFailed int string
  | NoteBlur string

fun viewStep :: "viewEvent \<Rightarrow> pdfNoteView \<Rightarrow> pdfNoteView" where
  "viewStep PrevButton v = prevButtonClick v"
| "viewStep (PageInput inputValue) v = pageInputChange inputValue v"
| "viewStep NextButton v = nextButtonClick v"
| "viewStep PrevLink v = prevLinkClick v"
| "viewStep NextLink v = nextLinkClick v"
| "viewStep ViewAllLink v = showAllNotes v"
| "viewStep Rerender v = renderPage (viewCurrentPage v) v"
| "viewStep RefreshNotes v = updateNoteSection (viewCurrentPage v) v"
| "viewStep (PageRendered pageNumber) v = pageRendered pageNumber v"
| "viewStep (PageFailed pageNumber message) v = pageFailed pageNumber message v"
| "viewStep (NoteBlur noteText) v = noteBlur noteText v"

fun runView :: "viewEvent list \<Rightarrow> pdfNoteView \<Rightarrow> pdfNoteView" where
  "runView [] v = v"
| "runView (e # es) v = runView es (viewStep e v)"

section \<open>Notions used in the statements\<close>

text \<open>
  A text is free of marker lines when no line of it is matched by the expression of
  \<open>parseExistingNotes\<close>; \<open>bol\<close> says whether the text begins at a line start.
\<close>

fun markerFree :: "bool \<Rightarrow> string \<Rightarrow> bool" where
  "markerFree bol [] = True"
| "markerFree bol (c # cs) =
     ((if bol then matchMarker (c # cs) = None else True) \<and> markerFree (isLineTerminator c) cs)"

definition noLineBreak :: "string \<Rightarrow> bool" where
  "noLineBreak s = list_all (\<lambda>c. \<not> isLineTerminator c) s"

text \<open>The text that \<open>saveAllNotesToFile\<close> writes under the heading of a page.\<close>

definition storedBody :: "(nat \<rightharpoonup> string) \<Rightarrow> nat \<Rightarrow> string" where
  "storedBody notes page =
     (case notes page of
        Some body \<Rightarrow> if body \<noteq> [] then body else placeholder
      | None \<Rightarrow> placeholder)"

text \<open>The view is well formed for a reload: names without line breaks, bodies without marker lines.\<close>

definition reloadable :: "app \<Rightarrow> bool" where
  "reloadable a \<longleftrightarrow>
     noLineBreak (pdfName a) \<and> noLineBreak (pdfFileName a) \<and>
     list_all (\<lambda>page. markerFree True (storedBody (pageNotes a) page)) [1..<Suc (numPages a)]"

text \<open>
  Every page number in the view is at least 1: the current page, the pages of the calls
  of \<open>renderPage\<close> that wait, the page of the note section, and the page of every call
  of \<open>loadNotes\<close> and \<open>saveNotes\<close> made so far.
\<close>

definition pagesFromOne :: "pdfNoteView \<Rightarrow> bool" where
  "pagesFromOne v \<longleftrightarrow>
     1 \<le> viewCurrentPage v \<and>
     list_all (\<lambda>p. 1 \<le> p) (rendering v) \<and>
     (case notePage v of None \<Rightarrow> True | Some q \<Rightarrow> 1 \<le> q) \<and>
     list_all (\<lambda>(op, p). 1 \<le> p) (notesCalls v)"

section \<open>Notions used in the proofs about \<open>loadNotes\<close> and \<open>saveNotes\<close>\<close>

text \<open>
  A text is cut at every occurrence of \<open>## Page\<close>: the chunk before the first
  occurrence, then the chunks that follow each occurrence. The header of a page is the
  mark followed by a space, the number and a line feed.
\<close>

definition headerTail :: "int \<Rightarrow> string" where
  "headerTail q = CHR '' '' # showInt q @ ''\<newline>''"

fun joinChunks :: "string \<Rightarrow> string list \<Rightarrow> string" where
  "joinChunks c0 [] = c0"
| "joinChunks c0 (c # cs) = c0 @ ''## Page'' @ joinChunks c cs"

definition restChunks :: "string list \<Rightarrow> string" where
  "restChunks cs = concat (map (\<lambda>c. ''## Page'' @ c) cs)"

text \<open>Trimming at the end only, and the chunk that a replaced section becomes.\<close>

definition trimEnd :: "string \<Rightarrow> string" where
  "trimEnd s = rev (dropWhile isWhiteSpace (rev s))"

definition newChunk :: "int \<Rightarrow> string \<Rightarrow> string" where
  "newChunk p b = CHR '' '' # showInt p @ trimEnd (''\<newline>'' @ b @ ''\<newline>\<newline>'')"

definition upsertChunks :: "int \<Rightarrow> string \<Rightarrow> string list \<Rightarrow> string list" where
  "upsertChunks p b cs =
     (case List.extract (prefix (headerTail p)) cs of
        None \<Rightarrow> cs @ [headerTail p @ b @ ''\<newline>\<newline>'']
      | Some (before, c, after) \<Rightarrow> before @ newChunk p b # after)"

text \<open>A text of white space only.\<close>

definition blank :: "string \<Rightarrow> bool" where
  "blank s = list_all isWhiteSpace s"

text \<open>
  A sequence of saves, each of a page number and a body, applied to the content of a
  notes file from left to right; the last body saved for a page; and a body that is not
  blank and holds neither a dollar sign nor the text \<open>## Page\<close>.
\<close>

definition cleanBody :: "string \<Rightarrow> bool" where
  "cleanBody b \<longleftrightarrow> CHR ''$'' \<notin> set b \<and> search ''## Page'' b = None \<and> \<not> blank b"

fun saveSequence :: "string \<Rightarrow> (int \<times> string) list \<Rightarrow> string" where
  "saveSequence content [] = content"
| "saveSequence content ((p, b) # saves) = saveSequence (upsertSection content p b) saves"

fun lastBody :: "int \<Rightarrow> (int \<times> string) list \<Rightarrow> string option" where
  "lastBody p [] = None"
| "lastBody p ((q, b) # saves) =
     (case lastBody p saves of Some b' \<Rightarrow> Some b' | None \<Rightarrow> if q = p then Some b else None)"

text \<open>A file store without files, and a notes file with two sections, used in the examples.\<close>

definition exampleVault :: vault where
  "exampleVault = \<lparr>files = Map.empty, locked = (\<lambda>path. False)\<rparr>"

definition exampleNotes :: string where
  "exampleNotes = ''# PDF Notes\<newline>\<newline>## Page 1\<newline>a\<newline>\<newline>## Page 2\<newline>b\<newline>\<newline>''"

text \<open>A view on a PDF of three pages that shows page 1, used in the examples.\<close>

definition exampleView :: pdfNoteView where
  "exampleView =
     \<lparr>viewCurrentPage = 1, viewNumPages = 3, viewPdfPath = Some ''a.pdf'',
      viewVault = exampleVault, rendering = [], notePage = Some 1, noteAreaValue = [],
      viewNotices = [], notesCalls = [(Load, 1)]\<rparr>"

section \<open>The debounced save: properties\<close>

lemma docChanged_pending:
  assumes "timers a = [(i, d)]" "timeout a = Some i" "t < d" "notesEditor a = Some old"
  shows "handle (DocChanged t text) a =
           a\<lparr>notesEditor := Some text, pageNotes := (pageNotes a)(currentPage a \<mapsto> text),
             timeout := Some (nextTimer a), timers := [(nextTimer a, t + debounceInterval)],
             nextTimer := Suc (nextTimer a)\<rparr>"
  using assms
  by (simp add: docChanged_def advance_def debouncedSave_def setTimeout_def clearTimeout_def)

lemma docChanged_idle:
  assumes "timers a = []" "notesEditor a = Some old"
  shows "handle (DocChanged t text) a =
           a\<lparr>notesEditor := Some text, pageNotes := (pageNotes a)(currentPage a \<mapsto> text),
             timeout := Some (nextTimer a), timers := [(nextTimer a, t + debounceInterval)],
             nextTimer := Suc (nextTimer a)\<rparr>"
  using assms
  by (cases "timeout a")
     (simp_all add: docChanged_def advance_def debouncedSave_def setTimeout_def clearTimeout_def)

lemma run_burst:
  assumes "burst t0 es" "timers a = [(i, t0 + debounceInterval)]" "timeout a = Some i"
    "notesEditor a = Some x0" "pageNotes a (currentPage a) = Some x0"
  shows "\<exists>j n. run es a =
           a\<lparr>notesEditor := Some (lastText x0 es),
             pageNotes := (pageNotes a)(currentPage a \<mapsto> lastText x0 es),
             timeout := Some j, timers := [(j, lastTime t0 es + debounceInterval)],
             nextTimer := n\<rparr>"
  using assms
proof (induction es arbitrary: a t0 i x0)
  case Nil
  have "a = a\<lparr>notesEditor := Some x0, pageNotes := (pageNotes a)(currentPage a \<mapsto> x0),
             timeout := Some i, timers := [(i, t0 + debounceInterval)], nextTimer := nextTimer a\<rparr>"
    using Nil by (simp add: fun_upd_idem)
  then show ?case by (metis run.simps(1) lastText.simps(1) lastTime.simps(1))
next
  case (Cons e es)
  then obtain t tx where e: "e = DocChanged t tx" by (cases e) auto
  let ?a = "handle e a"
  from Cons.prems e have t: "t0 \<le> t" "t < t0 + debounceInterval" and b: "burst t es" by auto
  have h: "?a = a\<lparr>notesEditor := Some tx, pageNotes := (pageNotes a)(currentPage a \<mapsto> tx),
             timeout := Some (nextTimer a), timers := [(nextTimer a, t + debounceInterval)],
             nextTimer := Suc (nextTimer a)\<rparr>"
    unfolding e using Cons.prems t by (intro docChanged_pending) auto
  have "\<exists>j n. run es ?a = ?a\<lparr>notesEditor := Some (lastText tx es),
             pageNotes := (pageNotes ?a)(currentPage ?a \<mapsto> lastText tx es),
             timeout := Some j, timers := [(j, lastTime t es + debounceInterval)],
             nextTimer := n\<rparr>"
    by (rule Cons.IH [OF b]) (simp_all del: handle.simps add: h)
  then obtain j n where r: "run es ?a = ?a\<lparr>notesEditor := Some (lastText tx es),
             pageNotes := (pageNotes ?a)(currentPage ?a \<mapsto> lastText tx es),
             timeout := Some j, timers := [(j, lastTime t es + debounceInterval)],
             nextTimer := n\<rparr>" by blast
  have "run (e # es) a = run es ?a" by (simp only: run.simps)
  also note r
  also have "?a\<lparr>notesEditor := Some (lastText tx es),
             pageNotes := (pageNotes ?a)(currentPage ?a \<mapsto> lastText tx es),
             timeout := Some j, timers := [(j, lastTime t es + debounceInterval)],
             nextTimer := n\<rparr> = a\<lparr>notesEditor := Some (lastText x0 (e # es)),
             pageNotes := (pageNotes a)(currentPage a \<mapsto> lastText x0 (e # es)),
             timeout := Some j, timers := [(j, lastTime t0 (e # es) + debounceInterval)],
             nextTimer := n\<rparr>"
    unfolding h by (simp add: e)
  finally show ?case by blast
qed

lemma settle_pending:
  assumes "timers a = [(j, d)]" "currentNotesFile a \<noteq> None" "notesEditor a = Some x"
    "pageNotes a (currentPage a) = Some x"
  shows "modified (settle a) = modified a @ [notesDocument a]"
proof -
  have "(pageNotes a)(currentPage a \<mapsto> x) = pageNotes a"
    using assms(4) by (simp add: fun_upd_idem)
  then show ?thesis
    using assms
    by (simp add: settle_def saveAllNotesToFile_def saveCurrentPageNotes_def Let_def
        notesDocument_def numPages_def pdfName_def pdfFileName_def)
qed

lemma view_coalesces:
  assumes "timers a = []" and "notesEditor a \<noteq> None" and "currentNotesFile a \<noteq> None"
    and "burst t0 es"
  shows "modified (settle (run (DocChanged t0 x0 # es) a)) =
           modified a @ [notesDocument (a\<lparr>pageNotes := (pageNotes a)(currentPage a \<mapsto> lastText x0 es)\<rparr>)]"
proof -
  from assms(2) obtain old where old: "notesEditor a = Some old" by auto
  let ?a = "handle (DocChanged t0 x0) a"
  have h: "?a = a\<lparr>notesEditor := Some x0, pageNotes := (pageNotes a)(currentPage a \<mapsto> x0),
             timeout := Some (nextTimer a), timers := [(nextTimer a, t0 + debounceInterval)],
             nextTimer := Suc (nextTimer a)\<rparr>"
    using assms(1) old by (rule docChanged_idle)
  have "\<exists>j n. run es ?a = ?a\<lparr>notesEditor := Some (lastText x0 es),
             pageNotes := (pageNotes ?a)(currentPage ?a \<mapsto> lastText x0 es),
             timeout := Some j, timers := [(j, lastTime t0 es + debounceInterval)],
             nextTimer := n\<rparr>"
    by (rule run_burst [OF assms(4)]) (simp_all del: handle.simps add: h)
  then obtain j n where r: "run es ?a = ?a\<lparr>notesEditor := Some (lastText x0 es),
             pageNotes := (pageNotes ?a)(currentPage ?a \<mapsto> lastText x0 es),
             timeout := Some j, timers := [(j, lastTime t0 es + debounceInterval)],
             nextTimer := n\<rparr>" by blast
  let ?b = "run (DocChanged t0 x0 # es) a"
  have "?b = run es ?a" by (simp only: run.simps)
  also note r
  also have "?a\<lparr>notesEditor := Some (lastText x0 es),
             pageNotes := (pageNotes ?a)(currentPage ?a \<mapsto> lastText x0 es),
             timeout := Some j, timers := [(j, lastTime t0 es + debounceInterval)],
             nextTimer := n\<rparr> = a\<lparr>notesEditor := Some (lastText x0 es),
             pageNotes := (pageNotes a)(currentPage a \<mapsto> lastText x0 es),
             timeout := Some j, timers := [(j, lastTime t0 es + debounceInterval)],
             nextTimer := n\<rparr>"
    unfolding h by simp
  finally have b: "?b = a\<lparr>notesEditor := Some (lastText x0 es),
             pageNotes := (pageNotes a)(currentPage a \<mapsto> lastText x0 es),
             timeout := Some j, timers := [(j, lastTime t0 es + debounceInterval)],
             nextTimer := n\<rparr>" .
  have "modified (settle ?b) = modified ?b @ [notesDocument ?b]"
    unfolding b by (rule settle_pending [where x = "lastText x0 es"]) (simp_all add: assms(3))
  moreover have "notesDocument ?b =
      notesDocument (a\<lparr>pageNotes := (pageNotes a)(currentPage a \<mapsto> lastText x0 es)\<rparr>)"
    unfolding b by (simp add: notesDocument_def numPages_def pdfName_def pdfFileName_def)
  moreover have "modified ?b = modified a" unfolding b by simp
  ultimately show ?thesis by simp
qed

lemma textareaInput_pending:
  assumes "areaTimers s = [(i, d)]" "saveTimeout s = Some i" "t < d"
  shows "textareaInput t v (areaAdvance t s) =
           s\<lparr>textareaValue := v, saveTimeout := Some (areaNextTimer s),
             areaTimers := [(areaNextTimer s, t + 1000)], areaNextTimer := Suc (areaNextTimer s)\<rparr>"
  using assms by (simp add: textareaInput_def areaAdvance_def Let_def)

lemma textareaInput_idle:
  assumes "areaTimers s = []"
  shows "textareaInput t v (areaAdvance t s) =
           s\<lparr>textareaValue := v, saveTimeout := Some (areaNextTimer s),
             areaTimers := [(areaNextTimer s, t + 1000)], areaNextTimer := Suc (areaNextTimer s)\<rparr>"
  using assms by (cases "saveTimeout s") (simp_all add: textareaInput_def areaAdvance_def Let_def)

lemma areaRun_burst:
  assumes "burst t0 es" "areaTimers s = [(i, t0 + 1000)]" "saveTimeout s = Some i"
    "textareaValue s = x0"
  shows "\<exists>j n. areaRun es s =
           s\<lparr>textareaValue := lastText x0 es, saveTimeout := Some j,
             areaTimers := [(j, lastTime t0 es + 1000)], areaNextTimer := n\<rparr>"
  using assms
proof (induction es arbitrary: s t0 i x0)
  case Nil
  have "s = s\<lparr>textareaValue := x0, saveTimeout := Some i,
             areaTimers := [(i, t0 + 1000)], areaNextTimer := areaNextTimer s\<rparr>"
    using Nil by simp
  then show ?case by (metis areaRun.simps(1) lastText.simps(1) lastTime.simps(1))
next
  case (Cons e es)
  then obtain t v where e: "e = DocChanged t v" by (cases e) auto
  let ?s = "textareaInput t v (areaAdvance t s)"
  from Cons.prems e have t: "t0 \<le> t" "t < t0 + 1000" and b: "burst t es"
    by (auto simp: debounceInterval_def)
  have h: "?s = s\<lparr>textareaValue := v, saveTimeout := Some (areaNextTimer s),
             areaTimers := [(areaNextTimer s, t + 1000)], areaNextTimer := Suc (areaNextTimer s)\<rparr>"
    using Cons.prems(2,3) t(2) by (rule textareaInput_pending)
  have "\<exists>j n. areaRun es ?s = ?s\<lparr>textareaValue := lastText v es, saveTimeout := Some j,
             areaTimers := [(j, lastTime t es + 1000)], areaNextTimer := n\<rparr>"
    by (rule Cons.IH [OF b]) (simp_all add: h)
  then obtain j n where r: "areaRun es ?s = ?s\<lparr>textareaValue := lastText v es,
      saveTimeout := Some j, areaTimers := [(j, lastTime t es + 1000)], areaNextTimer := n\<rparr>"
    by blast
  have "areaRun (e # es) s = areaRun es ?s" unfolding e by (simp only: areaRun.simps)
  also note r
  also have "?s\<lparr>textareaValue := lastText v es, saveTimeout := Some j,
             areaTimers := [(j, lastTime t es + 1000)], areaNextTimer := n\<rparr> =
      s\<lparr>textareaValue := lastText x0 (e # es), saveTimeout := Some j,
             areaTimers := [(j, lastTime t0 (e # es) + 1000)], areaNextTimer := n\<rparr>"
    unfolding h by (simp add: e)
  finally show ?case by blast
qed

lemma area_coalesces:
  assumes "areaTimers s = []" and "areaNotesFile s \<noteq> None" and "burst t0 es"
  shows "areaModified (areaSettle (areaRun (DocChanged t0 x0 # es) s)) =
           areaModified s @ [lastText x0 es]"
proof -
  let ?s = "textareaInput t0 x0 (areaAdvance t0 s)"
  have h: "?s = s\<lparr>textareaValue := x0, saveTimeout := Some (areaNextTimer s),
             areaTimers := [(areaNextTimer s, t0 + 1000)], areaNextTimer := Suc (areaNextTimer s)\<rparr>"
    using assms(1) by (rule textareaInput_idle)
  have "\<exists>j n. areaRun es ?s = ?s\<lparr>textareaValue := lastText x0 es, saveTimeout := Some j,
             areaTimers := [(j, lastTime t0 es + 1000)], areaNextTimer := n\<rparr>"
    by (rule areaRun_burst [OF assms(3)]) (simp_all add: h)
  then obtain j n where r: "areaRun es ?s = ?s\<lparr>textareaValue := lastText x0 es,
      saveTimeout := Some j, areaTimers := [(j, lastTime t0 es + 1000)], areaNextTimer := n\<rparr>"
    by blast
  have "areaRun (DocChanged t0 x0 # es) s = areaRun es ?s" by (simp only: areaRun.simps)
  also note r
  finally have b: "areaRun (DocChanged t0 x0 # es) s = ?s\<lparr>textareaValue := lastText x0 es,
      saveTimeout := Some j, areaTimers := [(j, lastTime t0 es + 1000)], areaNextTimer := n\<rparr>" .
  show ?thesis
    unfolding b h using assms(2) by (simp add: areaSettle_def saveTimeoutFired_def)
qed

text \<open>
  Claim C5 (debounce coalescing). Starting with no timer pending, a burst of one or more
  changes of the text, each less than one interval after the previous one, followed by
  quiet, leaves exactly one more write to the notes file. In the view with the editor,
  what is written is the document of the notes as they are after the last change; in the
  view with the text area, it is the text of the area after the last input.
\<close>

theorem debounce_coalesces:
  "(timers a = [] \<and> notesEditor a \<noteq> None \<and> currentNotesFile a \<noteq> None \<and> burst ta es \<longrightarrow>
      modified (settle (run (DocChanged ta xa # es) a)) =
        modified a @
        [notesDocument (a\<lparr>pageNotes := (pageNotes a)(currentPage a \<mapsto> lastText xa es)\<rparr>)]) \<and>
   (areaTimers s = [] \<and> areaNotesFile s \<noteq> None \<and> burst tb inputs \<longrightarrow>
      areaModified (areaSettle (areaRun (DocChanged tb xb # inputs) s)) =
        areaModified s @ [lastText xb inputs])"
  using view_coalesces area_coalesces by blast

text \<open>Three changes at the times 0, 400 and 1300: one write, with the last text.\<close>

theorem debounce_coalesces_witness:
  "modified (settle (run [DocChanged 0 ''n'', DocChanged 400 ''ne'', DocChanged 1300 ''new''] exampleApp)) =
     [''# doc - Notes\<newline>\<newline>**PDF:** [[doc.pdf]]\<newline>**Total Pages:** 2\<newline>\<newline>## Page 1\<newline>\<newline>new\<newline>\<newline>## Page 2\<newline>\<newline>_No notes for this page_\<newline>\<newline>''] \<and>
   areaModified (areaSettle (areaRun [DocChanged 0 ''n'', DocChanged 400 ''ne'', DocChanged 1300 ''new''] exampleArea)) =
     [''new'']"
proof -
  have b: "burst 0 [DocChanged 400 ''ne'', DocChanged 1300 ''new'']"
    by (simp add: debounceInterval_def)
  have h: "timers exampleApp = []" "notesEditor exampleApp \<noteq> None"
    "currentNotesFile exampleApp \<noteq> None"
    by (simp_all add: exampleApp_def)
  have g: "areaTimers exampleArea = []" "areaNotesFile exampleArea \<noteq> None"
    by (simp_all add: exampleArea_def)
  from debounce_coalesces [where a = exampleApp and ta = 0 and xa = "''n''"
      and es = "[DocChanged 400 ''ne'', DocChanged 1300 ''new'']" and s = exampleArea and tb = 0
      and xb = "''n''" and inputs = "[DocChanged 400 ''ne'', DocChanged 1300 ''new'']"] b h g
  have "modified (settle (run [DocChanged 0 ''n'', DocChanged 400 ''ne'', DocChanged 1300 ''new''] exampleApp)) =
      modified exampleApp @
        [notesDocument (exampleApp\<lparr>pageNotes := (pageNotes exampleApp)(currentPage exampleApp \<mapsto>
           lastText ''n'' [DocChanged 400 ''ne'', DocChanged 1300 ''new''])\<rparr>)]"
    and "areaModified (areaSettle (areaRun [DocChanged 0 ''n'', DocChanged 400 ''ne'', DocChanged 1300 ''new''] exampleArea)) =
      areaModified exampleArea @ [lastText ''n'' [DocChanged 400 ''ne'', DocChanged 1300 ''new'']]"
    by blast+
  then show ?thesis
    by (simp add: exampleApp_def exampleArea_def notesDocument_def numPages_def pdfName_def
        pdfFileName_def notesPreamble_def pagesLoop.simps pageBlock_def showNat.simps
        digitChar_def placeholder_def)
qed

text \<open>
  The timer of \<open>debouncedSave\<close> and the close of the view. \<open>onClose\<close> does not clear
  the timer, whose identifier lives in the closure of \<open>debouncedSave\<close>. When the close
  is over before the timer is due, the timer runs after the clean-up, when
  \<open>currentPdf\<close> is \<open>null\<close>, and \<open>saveAllNotesToFile\<close> writes a document without
  pages over the notes file. When the timer falls due while \<open>onClose\<close> waits for its
  write, the document is written a second time before the close is over.
\<close>

lemma late_write_after_close:
  "modified (settle (run [DocChanged 0 ''new'', Close 10 20] exampleApp)) =
     [''# doc - Notes\<newline>\<newline>**PDF:** [[doc.pdf]]\<newline>**Total Pages:** 2\<newline>\<newline>## Page 1\<newline>\<newline>new\<newline>\<newline>## Page 2\<newline>\<newline>_No notes for this page_\<newline>\<newline>'',
      ''# doc - Notes\<newline>\<newline>**PDF:** [[doc.pdf]]\<newline>**Total Pages:** 0\<newline>\<newline>''] \<and>
   modified (run [DocChanged 0 ''new'', Close 900 1100] exampleApp) =
     [''# doc - Notes\<newline>\<newline>**PDF:** [[doc.pdf]]\<newline>**Total Pages:** 2\<newline>\<newline>## Page 1\<newline>\<newline>new\<newline>\<newline>## Page 2\<newline>\<newline>_No notes for this page_\<newline>\<newline>'',
      ''# doc - Notes\<newline>\<newline>**PDF:** [[doc.pdf]]\<newline>**Total Pages:** 2\<newline>\<newline>## Page 1\<newline>\<newline>new\<newline>\<newline>## Page 2\<newline>\<newline>_No notes for this page_\<newline>\<newline>'']"
  by (simp add: exampleApp_def docChanged_def advance_def debouncedSave_def setTimeout_def
      clearTimeout_def onClose_def saveAllNotesToFile_def saveCurrentPageNotes_def settle_def
      notesDocument_def numPages_def pagesLoop.simps notesPreamble_def pdfName_def
      pdfFileName_def pageBlock_def showNat.simps digitChar_def placeholder_def
      debounceInterval_def)

text \<open>
  Claim C6 (force flush on close), as amended. A change of the text at the time \<open>t0\<close>
  is followed by the close of the view, called at \<open>t1\<close> and over at \<open>t2\<close>, before the
  interval has passed since the change. With auto-save on close enabled and a notes file
  open, when \<open>onClose\<close> is done exactly one more write has been made, and it holds the
  notes as they are after the change; otherwise no write has been made.
\<close>

theorem close_flushes_once:
  assumes "timers a = []" and "notesEditor a \<noteq> None"
    and "t0 \<le> t1" and "t1 \<le> t2" and "t2 < t0 + debounceInterval"
  shows "modified (run [DocChanged t0 x, Close t1 t2] a) =
           (if autoSaveOnClose a \<and> currentNotesFile a \<noteq> None
            then modified a @
                 [notesDocument (a\<lparr>pageNotes := (pageNotes a)(currentPage a \<mapsto> x)\<rparr>)]
            else modified a)"
proof -
  from assms(2) obtain old where old: "notesEditor a = Some old" by auto
  let ?a = "handle (DocChanged t0 x) a"
  have h: "?a = a\<lparr>notesEditor := Some x, pageNotes := (pageNotes a)(currentPage a \<mapsto> x),
             timeout := Some (nextTimer a), timers := [(nextTimer a, t0 + debounceInterval)],
             nextTimer := Suc (nextTimer a)\<rparr>"
    using assms(1) old by (rule docChanged_idle)
  have t1: "t1 < t0 + debounceInterval" using assms(4,5) by simp
  have adv: "advance t1 ?a = ?a"
    unfolding h using t1 by (simp add: advance_def)
  have "run [DocChanged t0 x, Close t1 t2] a = onClose t2 (advance t1 ?a)"
    by (simp only: run.simps handle.simps)
  also have "\<dots> = onClose t2 ?a" unfolding adv ..
  finally have r: "run [DocChanged t0 x, Close t1 t2] a = onClose t2 ?a" .
  show ?thesis
    unfolding r h using assms(5)
    by (simp add: onClose_def advance_def saveAllNotesToFile_def saveCurrentPageNotes_def Let_def
        notesDocument_def numPages_def pdfName_def pdfFileName_def)
qed

text \<open>
  A change at the time 0 and a close from 10 to 20: with auto-save on close, one write
  with the new text; without it, none.
\<close>

theorem close_flushes_once_witness:
  "modified (run [DocChanged 0 ''new'', Close 10 20] exampleApp) =
     [''# doc - Notes\<newline>\<newline>**PDF:** [[doc.pdf]]\<newline>**Total Pages:** 2\<newline>\<newline>## Page 1\<newline>\<newline>new\<newline>\<newline>## Page 2\<newline>\<newline>_No notes for this page_\<newline>\<newline>''] \<and>
   modified (run [DocChanged 0 ''new'', Close 10 20] (exampleApp\<lparr>currentNotesFile := None\<rparr>)) = []"
proof -
  have h: "timers exampleApp = []" "notesEditor exampleApp \<noteq> None"
    and h': "timers (exampleApp\<lparr>currentNotesFile := None\<rparr>) = []"
      "notesEditor (exampleApp\<lparr>currentNotesFile := None\<rparr>) \<noteq> None"
    by (simp_all add: exampleApp_def)
  have t: "(0::nat) \<le> 10" "(10::nat) \<le> 20" "(20::nat) < 0 + debounceInterval"
    by (simp_all add: debounceInterval_def)
  from close_flushes_once [OF h t, of "''new''"] close_flushes_once [OF h' t, of "''new''"]
  show ?thesis
    by (simp add: exampleApp_def notesDocument_def numPages_def pdfName_def pdfFileName_def
        notesPreamble_def pagesLoop.simps pageBlock_def showNat.simps digitChar_def placeholder_def)
qed

text \<open>
  Claim C6 as stated fails: with auto-save on close disabled, a change followed by the
  close leaves no write at all when the close is over.
\<close>

theorem close_flushes_once_counterexample:
  "modified (run [DocChanged 0 ''new'', Close 10 20] (exampleApp\<lparr>autoSaveOnClose := False\<rparr>)) = []"
  by (simp add: exampleApp_def docChanged_def advance_def debouncedSave_def setTimeout_def
      clearTimeout_def onClose_def saveAllNotesToFile_def saveCurrentPageNotes_def
      debounceInterval_def)

section \<open>Decimal numbers and marker lines\<close>

lemma pagesLoop_concat:
  "pagesLoop m page n doc = doc @ concat (map (pageBlock m) [page..<Suc n])"
proof (induction m page n doc rule: pagesLoop.induct)
  case (1 m page n doc)
  show ?case
  proof (cases "page \<le> n")
    case True
    then have "[page..<Suc n] = page # [Suc page..<Suc n]"
      by (simp add: upt_conv_Cons)
    with True 1 show ?thesis
      by (subst pagesLoop.simps) simp
  next
    case False
    then show ?thesis by (subst pagesLoop.simps) simp
  qed
qed

lemma digitChar_isDigit: "d < 10 \<Longrightarrow> isDigit (digitChar d)"
proof -
  assume "d < 10"
  then have "d \<in> {0,1,2,3,4,5,6,7,8,9}" by auto
  then show ?thesis by (auto simp: isDigit_def digitChar_def)
qed

lemma digitVal_digitChar: "d < 10 \<Longrightarrow> digitVal (digitChar d) = d"
proof -
  assume "d < 10"
  then have "d \<in> {0,1,2,3,4,5,6,7,8,9}" by auto
  then show ?thesis by (auto simp: digitVal_def digitChar_def)
qed

lemma showNat_digits: "list_all isDigit (showNat n)"
proof (induction n rule: showNat.induct)
  case (1 n)
  then show ?case
    by (subst showNat.simps) (auto simp: digitChar_isDigit)
qed

lemma showNat_nonempty: "showNat n \<noteq> []"
  by (subst showNat.simps) simp

lemma foldl_showNat:
  "foldl (\<lambda>n c. 10 * n + digitVal c) 0 (showNat n) = n"
proof (induction n rule: showNat.induct)
  case (1 n)
  show ?case
  proof (cases "n < 10")
    case True
    then show ?thesis by (subst showNat.simps) (simp add: digitVal_digitChar)
  next
    case False
    with 1 show ?thesis by (subst showNat.simps) (simp add: digitVal_digitChar)
  qed
qed

lemma parseInt_showNat: "parseInt (showNat n) = n"
proof -
  have tw: "takeWhile isDigit (showNat n) = showNat n"
    using showNat_digits [of n] by (simp add: list_all_iff takeWhile_eq_all_conv)
  show ?thesis unfolding parseInt_def tw by (rule foldl_showNat)
qed


lemma isLineTerminator_not_digit: "isLineTerminator c \<Longrightarrow> \<not> isDigit c"
  by (auto simp: isLineTerminator_def isDigit_def)

lemma matchMarker_not_hash: "c \<noteq> CHR ''#'' \<Longrightarrow> matchMarker (c # cs) = None"
  by (simp add: matchMarker_def)

lemma matchMarker_Nil: "matchMarker [] = None"
  by (simp add: matchMarker_def)

lemma prefix_append_fresh:
  "c \<notin> set p \<Longrightarrow> prefix p (s @ c # rest) \<longleftrightarrow> prefix p s"
proof (induction p arbitrary: s)
  case Nil
  then show ?case by simp
next
  case (Cons x xs)
  then show ?case by (cases s) auto
qed

lemma matchMarker_page:
  "matchMarker (''## Page '' @ x) =
     (if takeWhile isDigit x \<noteq> [] \<and>
         (dropWhile isDigit x = [] \<or> isLineTerminator (hd (dropWhile isDigit x)))
      then Some (takeWhile isDigit x, dropWhile isDigit x) else None)"
  by (simp add: matchMarker_def Let_def)

lemma matchMarker_append_lt:
  assumes c: "isLineTerminator c"
  shows "matchMarker (s @ c # rest) = None \<longleftrightarrow> matchMarker s = None"
proof -
  have nd: "\<not> isDigit c" using c by (rule isLineTerminator_not_digit)
  have "c \<notin> set ''## Page ''" using c by (auto simp: isLineTerminator_def)
  then have p: "prefix ''## Page '' (s @ c # rest) \<longleftrightarrow> prefix ''## Page '' s"
    by (rule prefix_append_fresh)
  show ?thesis
  proof (cases "prefix ''## Page '' s")
    case False
    with p show ?thesis by (simp add: matchMarker_def)
  next
    case True
    then obtain r where s: "s = ''## Page '' @ r" by (auto simp: prefix_def)
    have tw: "takeWhile isDigit (r @ c # rest) = takeWhile isDigit r"
      using nd by (induction r) auto
    have dw: "dropWhile isDigit (r @ c # rest) = dropWhile isDigit r @ c # rest"
      using nd by (induction r) auto
    have l: "matchMarker (s @ c # rest) =
       (if takeWhile isDigit r \<noteq> [] \<and>
         (dropWhile isDigit r @ c # rest = [] \<or> isLineTerminator (hd (dropWhile isDigit r @ c # rest)))
      then Some (takeWhile isDigit r, dropWhile isDigit r @ c # rest) else None)"
      using matchMarker_page [of "r @ c # rest"] unfolding s tw dw by simp
    show ?thesis
    proof (cases "dropWhile isDigit r")
      case Nil
      show ?thesis
        unfolding l unfolding s matchMarker_page Nil using c by simp
    next
      case (Cons y ys)
      show ?thesis
        unfolding l unfolding s matchMarker_page Cons by simp
    qed
  qed
qed

lemma splitScan_markerFree:
  assumes "markerFree bol s" and c: "isLineTerminator c"
  shows "splitScan bol acc (s @ c # rest) = splitScan True (c # rev s @ acc) rest"
  using assms(1)
proof (induction s arbitrary: bol acc)
  case Nil
  have "matchMarker (c # rest) = None"
    using c by (intro matchMarker_not_hash) (auto simp: isLineTerminator_def)
  then show ?case using c by simp
next
  case (Cons x xs)
  from Cons.prems have mf: "markerFree (isLineTerminator x) xs"
    and nm: "bol \<Longrightarrow> matchMarker (x # xs) = None"
    by (auto split: if_splits)
  have "bol \<Longrightarrow> matchMarker ((x # xs) @ c # rest) = None"
    using nm matchMarker_append_lt [OF c, of "x # xs" rest] by simp
  then have "splitScan bol acc ((x # xs) @ c # rest) =
      splitScan (isLineTerminator x) (x # acc) (xs @ c # rest)"
    by (cases bol) simp_all
  also have "\<dots> = splitScan True (c # rev xs @ x # acc) rest"
    by (rule Cons.IH [OF mf])
  finally show ?case by simp
qed


lemma matchMarker_block:
  "matchMarker (''## Page '' @ showNat k @ CHR ''\<newline>'' # rest) = Some (showNat k, CHR ''\<newline>'' # rest)"
proof -
  have nd: "\<not> isDigit CHR ''\<newline>''" by (simp add: isDigit_def)
  have d: "\<forall>x\<in>set (showNat k). isDigit x"
    using showNat_digits [of k] by (simp add: list_all_iff)
  have tw: "takeWhile isDigit (showNat k @ CHR ''\<newline>'' # rest) = showNat k"
    using d nd by (simp add: takeWhile_append2)
  have dw: "dropWhile isDigit (showNat k @ CHR ''\<newline>'' # rest) = CHR ''\<newline>'' # rest"
    using d nd by (simp add: dropWhile_append2)
  show ?thesis
    unfolding matchMarker_page tw dw
    by (simp add: showNat_nonempty isLineTerminator_def)
qed

lemma splitScan_match:
  "matchMarker s = Some (ds, r) \<Longrightarrow> splitScan True acc s = rev acc # ds # splitScan False [] r"
  by (cases s) (simp_all add: matchMarker_Nil)

lemma splitScan_newline:
  "splitScan bol acc (CHR ''\<newline>'' # rest) = splitScan True (CHR ''\<newline>'' # acc) rest"
proof -
  have "matchMarker (CHR ''\<newline>'' # rest) = None"
    by (rule matchMarker_not_hash) simp
  then show ?thesis by (simp add: isLineTerminator_def)
qed

lemma splitScan_block:
  assumes "markerFree True body"
  shows "splitScan True acc (''## Page '' @ showNat k @ ''\<newline>\<newline>'' @ body @ ''\<newline>\<newline>'' @ rest) =
           rev acc # showNat k # splitScan True (rev (''\<newline>\<newline>'' @ body @ ''\<newline>\<newline>'')) rest"
proof -
  have lt: "isLineTerminator CHR ''\<newline>''" by (simp add: isLineTerminator_def)
  have "matchMarker (''## Page '' @ showNat k @ CHR ''\<newline>'' # (CHR ''\<newline>'' # body @ ''\<newline>\<newline>'' @ rest)) =
          Some (showNat k, CHR ''\<newline>'' # (CHR ''\<newline>'' # body @ ''\<newline>\<newline>'' @ rest))"
    by (rule matchMarker_block)
  then have "splitScan True acc (''## Page '' @ showNat k @ CHR ''\<newline>'' # (CHR ''\<newline>'' # body @ ''\<newline>\<newline>'' @ rest)) =
      rev acc # showNat k # splitScan False [] (CHR ''\<newline>'' # (CHR ''\<newline>'' # body @ ''\<newline>\<newline>'' @ rest))"
    by (rule splitScan_match)
  moreover have "splitScan False [] (CHR ''\<newline>'' # (CHR ''\<newline>'' # body @ ''\<newline>\<newline>'' @ rest)) =
      splitScan True ''\<newline>\<newline>'' (body @ CHR ''\<newline>'' # (CHR ''\<newline>'' # rest))"
    by (simp del: splitScan.simps add: splitScan_newline)
  moreover have "splitScan True ''\<newline>\<newline>'' (body @ CHR ''\<newline>'' # (CHR ''\<newline>'' # rest)) =
      splitScan True (CHR ''\<newline>'' # rev body @ ''\<newline>\<newline>'') (CHR ''\<newline>'' # rest)"
    using assms lt by (rule splitScan_markerFree)
  ultimately show ?thesis
    by (simp del: splitScan.simps add: splitScan_newline)
qed

lemma pageBlock_storedBody:
  "pageBlock m k = ''## Page '' @ showNat k @ ''\<newline>\<newline>'' @ storedBody m k @ ''\<newline>\<newline>'' "
  by (simp add: pageBlock_def storedBody_def split: option.splits)

lemma splitScan_blocks:
  assumes "\<forall>k\<in>set ks. markerFree True (storedBody m k)"
  shows "splitScan True acc (concat (map (pageBlock m) ks)) =
           rev acc # concat (map (\<lambda>k. [showNat k, ''\<newline>\<newline>'' @ storedBody m k @ ''\<newline>\<newline>'']) ks)"
  using assms
proof (induction ks arbitrary: acc)
  case Nil
  then show ?case by simp
next
  case (Cons k ks)
  have "splitScan True acc (concat (map (pageBlock m) (k # ks))) =
      splitScan True acc (''## Page '' @ showNat k @ ''\<newline>\<newline>'' @ storedBody m k @ ''\<newline>\<newline>'' @ concat (map (pageBlock m) ks))"
    by (simp add: pageBlock_storedBody)
  also have "\<dots> = rev acc # showNat k #
      splitScan True (rev (''\<newline>\<newline>'' @ storedBody m k @ ''\<newline>\<newline>'')) (concat (map (pageBlock m) ks))"
    using Cons.prems by (intro splitScan_block) simp
  also have "splitScan True (rev (''\<newline>\<newline>'' @ storedBody m k @ ''\<newline>\<newline>'')) (concat (map (pageBlock m) ks)) =
      rev (rev (''\<newline>\<newline>'' @ storedBody m k @ ''\<newline>\<newline>'')) #
        concat (map (\<lambda>k. [showNat k, ''\<newline>\<newline>'' @ storedBody m k @ ''\<newline>\<newline>'']) ks)"
    using Cons.prems by (intro Cons.IH) simp
  finally show ?case by simp
qed

lemma markerFree_False_noLineBreak: "noLineBreak s \<Longrightarrow> markerFree False s"
  by (induction s) (simp_all add: noLineBreak_def)

lemma markerFree_line:
  "noLineBreak l \<Longrightarrow> matchMarker l = None \<Longrightarrow> markerFree True l"
  by (cases l) (simp_all add: noLineBreak_def markerFree_False_noLineBreak)

lemma markerFree_append_lt:
  assumes "markerFree bol s" and c: "isLineTerminator c" and t: "markerFree True t"
  shows "markerFree bol (s @ c # t)"
  using assms(1)
proof (induction s arbitrary: bol)
  case Nil
  have "matchMarker (c # t) = None"
    using c by (intro matchMarker_not_hash) (auto simp: isLineTerminator_def)
  then show ?case using c t by simp
next
  case (Cons x xs)
  from Cons.prems have mf: "markerFree (isLineTerminator x) xs"
    and nm: "bol \<Longrightarrow> matchMarker (x # xs) = None"
    by (auto split: if_splits)
  have "bol \<Longrightarrow> matchMarker ((x # xs) @ c # t) = None"
    using nm matchMarker_append_lt [OF c, of "x # xs" t] by simp
  then show ?case using Cons.IH [OF mf] by simp
qed


lemma noLineBreak_append: "noLineBreak (s @ t) \<longleftrightarrow> noLineBreak s \<and> noLineBreak t"
  by (simp add: noLineBreak_def)

lemma noLineBreak_showNat: "noLineBreak (showNat n)"
  using showNat_digits [of n]
  by (auto simp: noLineBreak_def list_all_iff dest: isLineTerminator_not_digit)

lemma splitScan_preamble:
  assumes "noLineBreak name" and "noLineBreak fileName"
  shows "splitScan True [] (notesPreamble name fileName n @ rest) =
           splitScan True (rev (notesPreamble name fileName n)) rest"
proof -
  let ?l1 = "''# '' @ name @ '' - Notes''"
  let ?l3 = "''**PDF:** [['' @ fileName @ '']]''"
  let ?l4 = "''**Total Pages:** '' @ showNat n"
  let ?nl = "CHR ''\<newline>''"
  have lt: "isLineTerminator ?nl" by (simp add: isLineTerminator_def)
  have m1: "markerFree True ?l1"
    using assms(1)
    by (intro markerFree_line) (simp_all add: noLineBreak_def isLineTerminator_def matchMarker_def)
  have m3: "markerFree True ?l3"
    using assms(2)
    by (intro markerFree_line) (simp_all add: noLineBreak_def isLineTerminator_def matchMarker_def)
  have m4: "markerFree True ?l4"
    using noLineBreak_showNat [of n]
    by (intro markerFree_line) (simp_all add: noLineBreak_def isLineTerminator_def matchMarker_def)
  have m34: "markerFree True (?l3 @ ?nl # ?l4)"
    using m3 lt m4 by (rule markerFree_append_lt)
  have m234: "markerFree True ([] @ ?nl # (?l3 @ ?nl # ?l4))"
    using _ lt m34 by (rule markerFree_append_lt) simp
  have mS: "markerFree True (?l1 @ ?nl # ([] @ ?nl # (?l3 @ ?nl # ?l4)))"
    using m1 lt m234 by (rule markerFree_append_lt)
  have p: "notesPreamble name fileName n @ rest =
      (?l1 @ ?nl # ([] @ ?nl # (?l3 @ ?nl # ?l4))) @ ?nl # (?nl # rest)"
    by (simp add: notesPreamble_def)
  have "splitScan True [] (notesPreamble name fileName n @ rest) =
      splitScan True (?nl # rev (?l1 @ ?nl # ([] @ ?nl # (?l3 @ ?nl # ?l4))) @ []) (?nl # rest)"
    unfolding p using mS lt by (rule splitScan_markerFree)
  also have "\<dots> = splitScan True (?nl # ?nl # rev (?l1 @ ?nl # ([] @ ?nl # (?l3 @ ?nl # ?l4)))) rest"
    by (simp del: splitScan.simps add: splitScan_newline)
  also have "?nl # ?nl # rev (?l1 @ ?nl # ([] @ ?nl # (?l3 @ ?nl # ?l4))) =
      rev (notesPreamble name fileName n)"
    by (simp add: notesPreamble_def)
  finally show ?thesis .
qed

lemma splitPages_notesDocument:
  assumes "reloadable a"
  shows "splitPages (notesDocument a) =
           notesPreamble (pdfName a) (pdfFileName a) (numPages a) #
           concat (map (\<lambda>k. [showNat k, ''\<newline>\<newline>'' @ storedBody (pageNotes a) k @ ''\<newline>\<newline>''])
                    [1..<Suc (numPages a)])"
proof -
  from assms have n1: "noLineBreak (pdfName a)" and n2: "noLineBreak (pdfFileName a)"
    and b: "\<forall>k\<in>set [1..<Suc (numPages a)]. markerFree True (storedBody (pageNotes a) k)"
    by (simp_all add: reloadable_def list_all_iff)
  have "splitPages (notesDocument a) =
      splitScan True [] (notesPreamble (pdfName a) (pdfFileName a) (numPages a) @
         concat (map (pageBlock (pageNotes a)) [1..<Suc (numPages a)]))"
    by (simp add: splitPages_def notesDocument_def pagesLoop_concat)
  also have "\<dots> = splitScan True (rev (notesPreamble (pdfName a) (pdfFileName a) (numPages a)))
         (concat (map (pageBlock (pageNotes a)) [1..<Suc (numPages a)]))"
    using n1 n2 by (rule splitScan_preamble)
  also have "\<dots> = rev (rev (notesPreamble (pdfName a) (pdfFileName a) (numPages a))) #
      concat (map (\<lambda>k. [showNat k, ''\<newline>\<newline>'' @ storedBody (pageNotes a) k @ ''\<newline>\<newline>''])
                    [1..<Suc (numPages a)])"
    using b by (rule splitScan_blocks)
  finally show ?thesis by simp
qed

lemma trim_padding:
  assumes "\<forall>c\<in>set u. isWhiteSpace c" and "\<forall>c\<in>set w. isWhiteSpace c"
  shows "trim (u @ b @ w) = trim b"
proof -
  have l: "dropWhile isWhiteSpace (u @ b @ w) = dropWhile isWhiteSpace (b @ w)"
    using assms(1) by (simp add: dropWhile_append2)
  show ?thesis
  proof (cases "\<forall>c\<in>set b. isWhiteSpace c")
    case True
    have e1: "dropWhile isWhiteSpace (b @ w) = []"
      using True assms(2) by auto
    have e2: "dropWhile isWhiteSpace b = []"
      using True by auto
    show ?thesis unfolding trim_def l e1 e2 by simp
  next
    case False
    then have e: "dropWhile isWhiteSpace (b @ w) = dropWhile isWhiteSpace b @ w"
      by (auto simp: dropWhile_append1)
    have "dropWhile isWhiteSpace (rev w @ rev (dropWhile isWhiteSpace b)) =
        dropWhile isWhiteSpace (rev (dropWhile isWhiteSpace b))"
      using assms(2) by (intro dropWhile_append2) simp
    then show ?thesis
      unfolding trim_def l e by simp
  qed
qed

lemma trim_section: "trim (''\<newline>\<newline>'' @ b @ ''\<newline>\<newline>'') = trim b"
  by (rule trim_padding) (simp_all add: isWhiteSpace_def)

lemma parseLoop_pieces:
  assumes "distinct ks"
  shows "parseLoop m (concat (map (\<lambda>k. [showNat k, f k]) ks)) =
           (\<lambda>q. if q \<in> set ks \<and> trim (f q) \<noteq> placeholder then Some (trim (f q)) else m q)"
  using assms
proof (induction ks arbitrary: m)
  case Nil
  then show ?case by simp
next
  case (Cons k ks)
  then have d: "distinct ks" and k: "k \<notin> set ks" by simp_all
  show ?case
    by (simp add: Cons.IH [OF d] parseInt_showNat fun_eq_iff k)
qed

lemma parse_notesDocument:
  assumes "reloadable a"
  shows "parseExistingNotes (notesDocument a) q =
           (if 1 \<le> q \<and> q \<le> numPages a \<and> trim (storedBody (pageNotes a) q) \<noteq> placeholder
            then Some (trim (storedBody (pageNotes a) q)) else None)"
proof -
  have "parseExistingNotes (notesDocument a) =
      parseLoop Map.empty (concat (map (\<lambda>k. [showNat k, ''\<newline>\<newline>'' @ storedBody (pageNotes a) k @ ''\<newline>\<newline>''])
                    [1..<Suc (numPages a)]))"
    by (simp add: parseExistingNotes_def splitPages_notesDocument [OF assms])
  also have "\<dots> = (\<lambda>q. if q \<in> set [1..<Suc (numPages a)] \<and>
        trim (''\<newline>\<newline>'' @ storedBody (pageNotes a) q @ ''\<newline>\<newline>'') \<noteq> placeholder
      then Some (trim (''\<newline>\<newline>'' @ storedBody (pageNotes a) q @ ''\<newline>\<newline>'')) else None)"
    by (rule parseLoop_pieces) simp
  finally show ?thesis
    unfolding trim_section by auto
qed

lemma parseLoop_never_placeholder:
  "\<forall>k. m k \<noteq> Some placeholder \<Longrightarrow> parseLoop m pieces k \<noteq> Some placeholder"
proof (induction m pieces rule: parseLoop.induct)
  case (1 m)
  then show ?case by simp
next
  case (2 m ds)
  then show ?case by (simp add: placeholder_def)
next
  case (3 m ds t pieces)
  then show ?case by simp
qed

section \<open>Saving and reloading the notes document\<close>

text \<open>
  Claim C3 (empty body), as amended. An empty body is written as the placeholder line
  under the heading of its page; after the reload the page has no entry in the notes
  (absent, not the empty string), and the editor shows the page with empty text. The
  side conditions are those of C2.
\<close>

theorem empty_body_reloads_absent:
  assumes "reloadable a" and "1 \<le> p" and "p \<le> numPages a" and "pageNotes a p = Some []"
  shows "pageBlock (pageNotes a) p = ''## Page '' @ showNat p @ ''\<newline>\<newline>_No notes for this page_\<newline>\<newline>'' \<and>
         parseExistingNotes (notesDocument a) p = None \<and>
         editorContent (parseExistingNotes (notesDocument a)) p = []"
proof -
  have t: "trim placeholder = placeholder" by code_simp
  have "parseExistingNotes (notesDocument a) p = None"
    using assms(2-) by (simp add: parse_notesDocument [OF assms(1)] storedBody_def t)
  then show ?thesis
    using assms(4) by (simp add: pageBlock_def editorContent_def placeholder_def)
qed

text \<open>One page with an empty body.\<close>

theorem empty_body_reloads_absent_witness:
  "pageBlock [1 \<mapsto> ''''] 1 = ''## Page 1\<newline>\<newline>_No notes for this page_\<newline>\<newline>'' \<and>
   parseExistingNotes (notesDocument (exampleApp\<lparr>pageNotes := [1 \<mapsto> '''']\<rparr>)) 1 = None \<and>
   editorContent (parseExistingNotes (notesDocument (exampleApp\<lparr>pageNotes := [1 \<mapsto> '''']\<rparr>))) 1 = []"
proof -
  let ?a = "exampleApp\<lparr>pageNotes := [1 \<mapsto> '''']\<rparr>"
  have r: "reloadable ?a" by code_simp
  have n: "(1::nat) \<le> numPages ?a" by code_simp
  have b: "pageNotes ?a 1 = Some []" by simp
  from empty_body_reloads_absent [OF r _ n b] show ?thesis
    by (simp add: showNat.simps digitChar_def)
qed

text \<open>
  Claim C3 as stated fails: after an empty body is saved for page 1, the reload has no
  entry for page 1.
\<close>

theorem empty_body_reloads_absent_counterexample:
  "parseExistingNotes (notesDocument (exampleApp\<lparr>pageNotes := [1 \<mapsto> '''']\<rparr>)) 1 = None"
  by code_simp

lemma notesDocument_page:
  assumes "1 \<le> p" and "p \<le> numPages a"
  shows "notesDocument a =
           notesPreamble (pdfName a) (pdfFileName a) (numPages a) @
           concat (map (pageBlock (pageNotes a)) [1..<p]) @
           pageBlock (pageNotes a) p @
           concat (map (pageBlock (pageNotes a)) [Suc p..<Suc (numPages a)])"
proof -
  from assms(2) obtain k where k: "Suc (numPages a) = p + k"
    using le_Suc_ex [of p "Suc (numPages a)"] by auto
  have "[1..<Suc (numPages a)] = [1..<p] @ [p..<Suc (numPages a)]"
    unfolding k using assms(1) by (rule upt_add_eq_append)
  also have "[p..<Suc (numPages a)] = p # [Suc p..<Suc (numPages a)]"
    using assms(2) by (simp add: upt_conv_Cons)
  finally show ?thesis
    by (simp add: notesDocument_def pagesLoop_concat)
qed

lemma saveCurrentPageNotes_same:
  "numPages (saveCurrentPageNotes a) = numPages a"
  "pdfName (saveCurrentPageNotes a) = pdfName a"
  "pdfFileName (saveCurrentPageNotes a) = pdfFileName a"
  "modified (saveCurrentPageNotes a) = modified a"
  by (cases "notesEditor a";
      simp add: saveCurrentPageNotes_def numPages_def pdfName_def pdfFileName_def)+

text \<open>
  Claim C10 (placeholder collision), as amended. On a save, a page of the document with
  no stored body (none, or the empty string) is written as its heading followed by
  exactly the placeholder text, and so is a page whose stored body is exactly the
  placeholder text. When what was written is reloaded, that page has no notes, provided
  no stored body holds a marker line and the names of the PDF hold no line break.
  Whatever the document, the reload never yields the placeholder text as a body.
\<close>

theorem placeholder_collision:
  assumes "currentNotesFile a \<noteq> None" and "1 \<le> p" and "p \<le> numPages a"
    and "pageNotes (saveCurrentPageNotes a) p = None \<or>
         pageNotes (saveCurrentPageNotes a) p = Some [] \<or>
         pageNotes (saveCurrentPageNotes a) p = Some placeholder"
  shows "modified (saveAllNotesToFile a) =
           modified a @
           [notesPreamble (pdfName a) (pdfFileName a) (numPages a) @
            concat (map (pageBlock (pageNotes (saveCurrentPageNotes a))) [1..<p]) @
            ''## Page '' @ showNat p @ ''\<newline>\<newline>_No notes for this page_\<newline>\<newline>'' @
            concat (map (pageBlock (pageNotes (saveCurrentPageNotes a))) [Suc p..<Suc (numPages a)])] \<and>
         (reloadable (saveCurrentPageNotes a) \<longrightarrow>
            parseExistingNotes (last (modified (saveAllNotesToFile a))) p = None) \<and>
         parseExistingNotes content q \<noteq> Some placeholder"
proof -
  let ?b = "saveCurrentPageNotes a"
  have t: "trim placeholder = placeholder" by code_simp
  have w: "modified (saveAllNotesToFile a) = modified a @ [notesDocument ?b]"
    using assms(1) by (simp add: saveAllNotesToFile_def Let_def saveCurrentPageNotes_same)
  have blk: "pageBlock (pageNotes ?b) p =
      ''## Page '' @ showNat p @ ''\<newline>\<newline>_No notes for this page_\<newline>\<newline>''"
    using assms(4) by (auto simp: pageBlock_def placeholder_def)
  have p: "1 \<le> p" "p \<le> numPages ?b"
    using assms(2,3) by (simp_all add: saveCurrentPageNotes_same)
  have 1: "modified (saveAllNotesToFile a) =
           modified a @
           [notesPreamble (pdfName a) (pdfFileName a) (numPages a) @
            concat (map (pageBlock (pageNotes ?b)) [1..<p]) @
            ''## Page '' @ showNat p @ ''\<newline>\<newline>_No notes for this page_\<newline>\<newline>'' @
            concat (map (pageBlock (pageNotes ?b)) [Suc p..<Suc (numPages a)])]"
    unfolding w notesDocument_page [OF p] blk saveCurrentPageNotes_same by simp
  have sb: "storedBody (pageNotes ?b) p = placeholder"
    using assms(4) by (auto simp: storedBody_def)
  have 2: "reloadable ?b \<longrightarrow> parseExistingNotes (last (modified (saveAllNotesToFile a))) p = None"
    unfolding w using p by (simp add: parse_notesDocument sb t)
  have 3: "parseExistingNotes content q \<noteq> Some placeholder"
    unfolding parseExistingNotes_def by (rule parseLoop_never_placeholder) simp
  from 1 2 3 show ?thesis by blast
qed

text \<open>
  The placeholder text typed into the editor of page 1, and nothing stored for page 2.
\<close>

theorem placeholder_collision_witness:
  "modified (saveAllNotesToFile (exampleApp\<lparr>notesEditor := Some ''_No notes for this page_''\<rparr>)) =
     [''# doc - Notes\<newline>\<newline>**PDF:** [[doc.pdf]]\<newline>**Total Pages:** 2\<newline>\<newline>## Page 1\<newline>\<newline>_No notes for this page_\<newline>\<newline>## Page 2\<newline>\<newline>_No notes for this page_\<newline>\<newline>''] \<and>
   parseExistingNotes
     (last (modified (saveAllNotesToFile (exampleApp\<lparr>notesEditor := Some ''_No notes for this page_''\<rparr>)))) 1 = None"
proof -
  let ?a = "exampleApp\<lparr>notesEditor := Some ''_No notes for this page_''\<rparr>"
  have f: "currentNotesFile ?a \<noteq> None" by (simp add: exampleApp_def)
  have n: "(1::nat) \<le> 1" "(1::nat) \<le> numPages ?a" by code_simp+
  have b: "pageNotes (saveCurrentPageNotes ?a) 1 = None \<or>
         pageNotes (saveCurrentPageNotes ?a) 1 = Some [] \<or>
         pageNotes (saveCurrentPageNotes ?a) 1 = Some placeholder"
    by (simp add: saveCurrentPageNotes_def exampleApp_def placeholder_def)
  have r: "reloadable (saveCurrentPageNotes ?a)" by code_simp
  have m: "modified ?a = []" by (simp add: exampleApp_def)
  have pre: "notesPreamble (pdfName ?a) (pdfFileName ?a) (numPages ?a) =
      ''# doc - Notes\<newline>\<newline>**PDF:** [[doc.pdf]]\<newline>**Total Pages:** 2\<newline>\<newline>''" by code_simp
  have post: "concat (map (pageBlock (pageNotes (saveCurrentPageNotes ?a))) [Suc 1..<Suc (numPages ?a)]) =
      ''## Page 2\<newline>\<newline>_No notes for this page_\<newline>\<newline>''" by code_simp
  have s: "showNat 1 = ''1''" by code_simp
  from placeholder_collision [OF f n b, of "[]" 1] r
  have w: "modified (saveAllNotesToFile ?a) =
      modified ?a @
      [notesPreamble (pdfName ?a) (pdfFileName ?a) (numPages ?a) @
       concat (map (pageBlock (pageNotes (saveCurrentPageNotes ?a))) [1..<1]) @
       ''## Page '' @ showNat 1 @ ''\<newline>\<newline>_No notes for this page_\<newline>\<newline>'' @
       concat (map (pageBlock (pageNotes (saveCurrentPageNotes ?a))) [Suc 1..<Suc (numPages ?a)])]"
    and l: "parseExistingNotes (last (modified (saveAllNotesToFile ?a))) 1 = None"
    by blast+
  have "modified (saveAllNotesToFile ?a) =
     [''# doc - Notes\<newline>\<newline>**PDF:** [[doc.pdf]]\<newline>**Total Pages:** 2\<newline>\<newline>## Page 1\<newline>\<newline>_No notes for this page_\<newline>\<newline>## Page 2\<newline>\<newline>_No notes for this page_\<newline>\<newline>'']"
    unfolding w m pre post s by simp
  then show ?thesis using l by (rule conjI)
qed

text \<open>
  Claim C10 as stated fails: the stored body of page 2 is the placeholder text, and the
  text in the editor of page 1 holds a marker line of page 2; after the save and the
  reload page 2 has notes, those that follow that marker line.
\<close>

theorem placeholder_collision_counterexample:
  "pageNotes (saveCurrentPageNotes (exampleApp\<lparr>pageNotes := [2 \<mapsto> ''_No notes for this page_''],
       notesEditor := Some ''x\<newline>## Page 2\<newline>hijack''\<rparr>)) 2 = Some ''_No notes for this page_'' \<and>
   parseExistingNotes (last (modified (saveAllNotesToFile
     (exampleApp\<lparr>pageNotes := [2 \<mapsto> ''_No notes for this page_''],
       notesEditor := Some ''x\<newline>## Page 2\<newline>hijack''\<rparr>)))) 2 = Some ''hijack''"
  by code_simp


section \<open>Texts cut at the page marks\<close>

lemma search_None_iff: "search pat s = None \<longleftrightarrow> \<not> sublist pat s"
  by (induction s) (auto simp: sublist_Cons_right split: option.splits)

lemma search_Some_decomp: "search pat s = Some (pre, post) \<Longrightarrow> s = pre @ pat @ post"
proof (induction s arbitrary: pre)
  case Nil
  then show ?case by (simp split: if_splits)
next
  case (Cons c cs)
  show ?case
  proof (cases "prefix pat (c # cs)")
    case True
    with Cons.prems show ?thesis by (auto simp: prefix_def)
  next
    case False
    with Cons.prems obtain pre' where "search pat cs = Some (pre', post)" and "pre = c # pre'"
      by (auto split: option.splits)
    with Cons.IH show ?thesis by simp
  qed
qed

lemma search_Some_first:
  "search pat s = Some (pre, post) \<Longrightarrow> pat \<noteq> [] \<Longrightarrow> \<not> sublist pat pre"
proof (induction s arbitrary: pre)
  case Nil
  then show ?case by (simp split: if_splits)
next
  case (Cons c cs)
  show ?case
  proof (cases "prefix pat (c # cs)")
    case True
    with Cons.prems show ?thesis by auto
  next
    case False
    with Cons.prems obtain pre' where s: "search pat cs = Some (pre', post)" and p: "pre = c # pre'"
      by (auto split: option.splits)
    from s have cs: "cs = pre' @ pat @ post" by (rule search_Some_decomp)
    have "\<not> prefix pat (c # pre')"
    proof
      assume "prefix pat (c # pre')"
      then have "prefix pat ((c # pre') @ pat @ post)" by (rule prefix_prefix)
      with False cs show False by simp
    qed
    moreover have "\<not> sublist pat pre'" using Cons.IH [OF s Cons.prems(2)] .
    ultimately show ?thesis by (simp add: p sublist_Cons_right)
  qed
qed

lemma sublist_append_left: "sublist (xs @ ys) zs \<Longrightarrow> sublist xs zs"
  by (auto simp: sublist_def)

text \<open>The mark does not overlap itself.\<close>

lemma prefix_mark_take:
  assumes "prefix ''## Page'' s"
  shows "take 7 s = ''## Page''"
proof -
  from assms obtain zs where "s = ''## Page'' @ zs" by (auto simp: prefix_def)
  then show ?thesis by simp
qed

lemma mark_no_overlap:
  assumes "prefix ''## Page'' (c @ ''## Page'' @ r)" and "c \<noteq> []"
  shows "sublist ''## Page'' c"
proof (cases "length c < 7")
  case False
  from assms(1) have "take 7 (c @ ''## Page'' @ r) = ''## Page''"
    by (rule prefix_mark_take)
  with False have "take 7 c = ''## Page''" by simp
  then have "c = ''## Page'' @ drop 7 c" by (metis append_take_drop_id)
  then show ?thesis by (metis sublist_append_rightI)
next
  case True
  from assms(1) have t: "take 7 (c @ ''## Page'' @ r) = ''## Page''"
    by (rule prefix_mark_take)
  from assms(2) have "length c \<noteq> 0" by simp
  with True have "length c = 1 \<or> length c = 2 \<or> length c = 3 \<or> length c = 4 \<or>
      length c = 5 \<or> length c = 6" by arith
  then have False
  proof (elim disjE)
    assume "length c = 1" with t show False by (auto simp: append_eq_Cons_conv)
  next
    assume "length c = 2" with t show False by (auto simp: append_eq_Cons_conv)
  next
    assume "length c = 3" with t show False by (auto simp: append_eq_Cons_conv)
  next
    assume "length c = 4" with t show False by (auto simp: append_eq_Cons_conv)
  next
    assume "length c = 5" with t show False by (auto simp: append_eq_Cons_conv)
  next
    assume "length c = 6" with t show False by (auto simp: append_eq_Cons_conv)
  qed
  then show ?thesis ..
qed

lemma search_Cons_noprefix:
  "\<not> prefix pat (c # cs) \<Longrightarrow>
     search pat (c # cs) =
       (case search pat cs of None \<Rightarrow> None | Some (pre, post) \<Rightarrow> Some (c # pre, post))"
  by simp

lemma search_skip_chunk:
  assumes "\<not> sublist ''## Page'' c0"
  shows "search (''## Page'' @ t) (c0 @ ''## Page'' @ r) =
           map_option (\<lambda>(pre, post). (c0 @ pre, post)) (search (''## Page'' @ t) (''## Page'' @ r))"
  using assms
proof (induction c0)
  case Nil
  show ?case by (simp add: option.map_ident_strong split: prod.splits)
next
  case (Cons x xs)
  have np: "\<not> prefix (''## Page'' @ t) ((x # xs) @ ''## Page'' @ r)"
  proof
    assume "prefix (''## Page'' @ t) ((x # xs) @ ''## Page'' @ r)"
    then have "prefix ''## Page'' ((x # xs) @ ''## Page'' @ r)"
      using append_prefixD by blast
    then have "sublist ''## Page'' (x # xs)" by (rule mark_no_overlap) simp
    with Cons.prems show False by simp
  qed
  from Cons.prems have "\<not> sublist ''## Page'' xs"
    by (simp add: sublist_Cons_right)
  then have ih: "search (''## Page'' @ t) (xs @ ''## Page'' @ r) =
      map_option (\<lambda>(pre, post). (xs @ pre, post)) (search (''## Page'' @ t) (''## Page'' @ r))"
    by (rule Cons.IH)
  have "search (''## Page'' @ t) ((x # xs) @ ''## Page'' @ r) =
      (case search (''## Page'' @ t) (xs @ ''## Page'' @ r) of
         None \<Rightarrow> None | Some (pre, post) \<Rightarrow> Some (x # pre, post))"
    using np unfolding append_Cons by (rule search_Cons_noprefix)
  then show ?case
    unfolding ih by (simp split: option.splits)
qed

lemma search_at_mark:
  "search (''## Page'' @ t) (''## Page'' @ r) =
     (if prefix t r then Some ([], drop (length t) r)
      else map_option (\<lambda>(pre, post). (''## Page'' @ pre, post)) (search (''## Page'' @ t) r))"
  by (simp split: option.splits)

lemma joinChunks_Cons_shape:
  "joinChunks c cs = c \<or> (\<exists>r. joinChunks c cs = c @ CHR ''#'' # r)"
  by (cases cs) auto

lemma prefix_joinChunks:
  assumes "CHR ''#'' \<notin> set t"
  shows "prefix t (joinChunks c cs) \<longleftrightarrow> prefix t c"
proof -
  from joinChunks_Cons_shape [of c cs] show ?thesis
  proof
    assume "joinChunks c cs = c" then show ?thesis by simp
  next
    assume "\<exists>r. joinChunks c cs = c @ CHR ''#'' # r"
    then obtain r where "joinChunks c cs = c @ CHR ''#'' # r" ..
    with prefix_append_fresh [OF assms, of c r] show ?thesis by simp
  qed
qed

lemma drop_joinChunks: "n \<le> length c \<Longrightarrow> drop n (joinChunks c cs) = joinChunks (drop n c) cs"
  by (cases cs) auto

lemma search_joinChunks:
  assumes "\<not> sublist ''## Page'' c0" and "\<forall>c\<in>set cs. \<not> sublist ''## Page'' c"
    and t: "CHR ''#'' \<notin> set t"
  shows "search (''## Page'' @ t) (joinChunks c0 cs) =
           (case List.extract (prefix t) cs of
              None \<Rightarrow> None
            | Some (before, c, after) \<Rightarrow>
                Some (joinChunks c0 before, joinChunks (drop (length t) c) after))"
  using assms(1,2)
proof (induction cs arbitrary: c0)
  case Nil
  have "\<not> sublist (''## Page'' @ t) c0"
    using Nil.prems(1) sublist_append_left by blast
  then show ?case by (simp add: search_None_iff extract_Nil_code)
next
  case (Cons c cs)
  from Cons.prems have c: "\<not> sublist ''## Page'' c" and cs: "\<forall>c\<in>set cs. \<not> sublist ''## Page'' c"
    by simp_all
  have ih: "search (''## Page'' @ t) (joinChunks c cs) =
           (case List.extract (prefix t) cs of
              None \<Rightarrow> None
            | Some (before, c', after) \<Rightarrow>
                Some (joinChunks c before, joinChunks (drop (length t) c') after))"
    using c cs by (rule Cons.IH)
  have s: "search (''## Page'' @ t) (joinChunks c0 (c # cs)) =
      map_option (\<lambda>(pre, post). (c0 @ pre, post))
        (if prefix t c then Some ([], drop (length t) (joinChunks c cs))
         else map_option (\<lambda>(pre, post). (''## Page'' @ pre, post))
                (search (''## Page'' @ t) (joinChunks c cs)))"
    unfolding joinChunks.simps search_skip_chunk [OF Cons.prems(1)] search_at_mark
      prefix_joinChunks [OF t] ..
  show ?case
  proof (cases "prefix t c")
    case True
    then have "length t \<le> length c" by (rule prefix_length_le)
    then show ?thesis
      unfolding s using True by (simp add: extract_Cons_code drop_joinChunks)
  next
    case False
    then show ?thesis
      unfolding s ih by (simp add: extract_Cons_code split: option.splits)
  qed
qed

lemma joinChunks_rest: "joinChunks c cs = c @ restChunks cs"
  by (induction cs arbitrary: c) (simp_all add: restChunks_def)

lemma restChunks_Cons: "restChunks (c # cs) = ''## Page'' @ joinChunks c cs"
  unfolding joinChunks_rest by (simp add: restChunks_def)

lemma lazyUntilPage_joinChunks:
  assumes "\<not> sublist ''## Page'' x"
  shows "lazyUntilPage (joinChunks x after) = (x, restChunks after)"
proof (cases after)
  case Nil
  have "search ''## Page'' x = None"
    using assms by (simp add: search_None_iff)
  then show ?thesis
    unfolding Nil by (simp add: lazyUntilPage_def restChunks_def)
next
  case (Cons a as)
  have "search (''## Page'' @ []) (x @ ''## Page'' @ joinChunks a as) =
      map_option (\<lambda>(pre, post). (x @ pre, post))
        (search (''## Page'' @ []) (''## Page'' @ joinChunks a as))"
    using assms by (rule search_skip_chunk)
  also have "search (''## Page'' @ []) (''## Page'' @ joinChunks a as) = Some ([], joinChunks a as)"
    unfolding search_at_mark by simp
  finally have "search ''## Page'' (x @ ''## Page'' @ joinChunks a as) = Some (x, joinChunks a as)"
    by simp
  then show ?thesis
    unfolding Cons lazyUntilPage_def joinChunks.simps restChunks_Cons by simp
qed

lemma pageHeader_tail: "pageHeader q @ ''\<newline>'' = ''## Page'' @ headerTail q"
  by (simp add: pageHeader_def headerTail_def)

lemma showInt_chars: "c \<in> set (showInt i) \<Longrightarrow> isDigit c \<or> c = CHR ''-''"
  using showNat_digits [of "nat i"] showNat_digits [of "nat (- i)"]
  by (auto simp: showInt_def list_all_iff split: if_splits)

lemma showNat_last: "isDigit (last (showNat n))"
  by (subst showNat.simps) (simp add: digitChar_isDigit)

lemma showInt_nonempty: "showInt i \<noteq> []"
  by (simp add: showInt_def showNat_nonempty)

lemma showInt_last: "isDigit (last (showInt i))"
  by (simp add: showInt_def showNat_nonempty showNat_last)

lemma showNat_inj: "showNat m = showNat n \<Longrightarrow> m = n"
  by (metis parseInt_showNat)

lemma showNat_hd_digit: "isDigit (hd (showNat n))"
  using showNat_digits [of n] showNat_nonempty [of n]
  by (cases "showNat n") (simp_all add: list_all_iff)

lemma showInt_inj:
  assumes "showInt i = showInt j"
  shows "i = j"
proof -
  have nd: "\<not> isDigit CHR ''-''" by (simp add: isDigit_def)
  have neg: "hd (showInt k) = CHR ''-'' \<longleftrightarrow> k < 0" for k
    using showNat_hd_digit [of "nat k"] nd by (auto simp: showInt_def)
  from assms neg [of i] neg [of j] have sgn: "i < 0 \<longleftrightarrow> j < 0" by simp
  show ?thesis
  proof (cases "i < 0")
    case True
    with sgn assms have "showNat (nat (- i)) = showNat (nat (- j))" by (simp add: showInt_def)
    then have "nat (- i) = nat (- j)" by (rule showNat_inj)
    with True sgn show ?thesis by simp
  next
    case False
    with sgn assms have "showNat (nat i) = showNat (nat j)" by (simp add: showInt_def)
    then have "nat i = nat j" by (rule showNat_inj)
    with False sgn show ?thesis by simp
  qed
qed

lemma showInt_fresh:
  "\<not> isDigit c \<Longrightarrow> c \<noteq> CHR ''-'' \<Longrightarrow> c \<notin> set (showInt i)"
  using showInt_chars by blast

lemma headerTail_no_hash: "CHR ''#'' \<notin> set (headerTail q)"
  using showInt_fresh [of "CHR ''#''" q] by (simp add: headerTail_def isDigit_def)

lemma sublist_drop_trans: "\<not> sublist p c \<Longrightarrow> \<not> sublist p (drop n c)"
  using sublist_drop sublist_order.order_trans by blast

lemma pageRegex_joinChunks:
  assumes "\<not> sublist ''## Page'' c0" and "\<forall>c\<in>set cs. \<not> sublist ''## Page'' c"
  shows "pageRegex q (joinChunks c0 cs) =
           (case List.extract (prefix (headerTail q)) cs of
              None \<Rightarrow> None
            | Some (before, c, after) \<Rightarrow>
                Some (joinChunks c0 before, drop (length (headerTail q)) c, restChunks after))"
proof (cases "List.extract (prefix (headerTail q)) cs")
  case None
  then show ?thesis
    unfolding pageRegex_def pageHeader_tail
      search_joinChunks [OF assms headerTail_no_hash] by simp
next
  case (Some r)
  then obtain before c after where r: "r = (before, c, after)" by (cases r) auto
  from Some r have "c \<in> set cs"
    by (auto simp: extract_Some_iff)
  with assms(2) have "\<not> sublist ''## Page'' (drop (length (headerTail q)) c)"
    by (intro sublist_drop_trans) simp
  then have "lazyUntilPage (joinChunks (drop (length (headerTail q)) c) after) =
      (drop (length (headerTail q)) c, restChunks after)"
    by (rule lazyUntilPage_joinChunks)
  then show ?thesis
    unfolding pageRegex_def pageHeader_tail
      search_joinChunks [OF assms headerTail_no_hash] Some r by simp
qed

lemma chunks_exist:
  "\<exists>c0 cs. d = joinChunks c0 cs \<and> \<not> sublist ''## Page'' c0 \<and>
     (\<forall>c\<in>set cs. \<not> sublist ''## Page'' c)"
proof (induction d rule: length_induct)
  case (1 d)
  show ?case
  proof (cases "search ''## Page'' d")
    case None
    then have "\<not> sublist ''## Page'' d" by (simp add: search_None_iff)
    then have "d = joinChunks d [] \<and> \<not> sublist ''## Page'' d \<and>
        (\<forall>c\<in>set []. \<not> sublist ''## Page'' c)" by simp
    then show ?thesis by blast
  next
    case (Some r)
    then obtain pre post where s: "search ''## Page'' d = Some (pre, post)" by (cases r) auto
    then have d: "d = pre @ ''## Page'' @ post" by (rule search_Some_decomp)
    from s have pre: "\<not> sublist ''## Page'' pre" by (rule search_Some_first) simp
    from d have "length post < length d" by simp
    with 1 obtain c0 cs where post: "post = joinChunks c0 cs" and c0: "\<not> sublist ''## Page'' c0"
      and cs: "\<forall>c\<in>set cs. \<not> sublist ''## Page'' c" by blast
    have "d = joinChunks pre (c0 # cs) \<and> \<not> sublist ''## Page'' pre \<and>
        (\<forall>c\<in>set (c0 # cs). \<not> sublist ''## Page'' c)"
      using d post pre c0 cs by simp
    then show ?thesis by blast
  qed
qed

lemma getSubstitution_plain:
  "CHR ''$'' \<notin> set s \<Longrightarrow> getSubstitution m pre post s = s"
  by (induction m pre post s rule: getSubstitution.induct) auto

lemma trimEnd_prefix: "prefix (trimEnd s) s"
proof -
  have "suffix (dropWhile isWhiteSpace (rev s)) (rev s)" by (rule suffix_dropWhile)
  then show ?thesis by (simp add: trimEnd_def suffix_to_prefix)
qed

lemma trimEnd_append_keep:
  assumes "a \<noteq> []" and "\<not> isWhiteSpace (last a)"
  shows "trimEnd (a @ y) = a @ trimEnd y"
proof -
  from assms have h: "\<not> isWhiteSpace (hd (rev a))" and ne: "rev a \<noteq> []"
    by (simp_all add: hd_rev)
  then have k: "dropWhile isWhiteSpace (rev a) = rev a"
    by (cases "rev a") auto
  show ?thesis
  proof (cases "\<forall>c\<in>set y. isWhiteSpace c")
    case True
    then have "dropWhile isWhiteSpace (rev y @ rev a) = dropWhile isWhiteSpace (rev a)"
      by (intro dropWhile_append2) simp
    moreover have "dropWhile isWhiteSpace (rev y) = []" using True by simp
    ultimately show ?thesis by (simp add: trimEnd_def k)
  next
    case False
    then obtain x where "x \<in> set (rev y)" and "\<not> isWhiteSpace x" by auto
    then have "dropWhile isWhiteSpace (rev y @ rev a) = dropWhile isWhiteSpace (rev y) @ rev a"
      by (rule dropWhile_append1)
    then show ?thesis by (simp add: trimEnd_def)
  qed
qed

lemma digit_not_space: "isDigit c \<Longrightarrow> \<not> isWhiteSpace c"
  by (auto simp: isDigit_def isWhiteSpace_def)

lemma trim_newPageContent:
  "trim (pageHeader p @ ''\<newline>'' @ b @ ''\<newline>\<newline>'') = ''## Page'' @ newChunk p b"
proof -
  let ?a = "''## Page '' @ showInt p"
  have l: "last ?a = last (showInt p)" using showInt_nonempty [of p] by simp
  have "\<not> isWhiteSpace (last ?a)"
    unfolding l using showInt_last [of p] by (rule digit_not_space)
  then have "trimEnd (?a @ (''\<newline>'' @ b @ ''\<newline>\<newline>'')) = ?a @ trimEnd (''\<newline>'' @ b @ ''\<newline>\<newline>'')"
    by (intro trimEnd_append_keep) simp
  moreover have "dropWhile isWhiteSpace (?a @ (''\<newline>'' @ b @ ''\<newline>\<newline>'')) = ?a @ (''\<newline>'' @ b @ ''\<newline>\<newline>'')"
    by (simp add: isWhiteSpace_def)
  ultimately have "trim (?a @ (''\<newline>'' @ b @ ''\<newline>\<newline>'')) = ?a @ trimEnd (''\<newline>'' @ b @ ''\<newline>\<newline>'')"
    unfolding trim_def trimEnd_def by simp
  then show ?thesis by (simp add: pageHeader_def newChunk_def)
qed

lemma set_trim: "set (trim s) \<subseteq> set s"
proof -
  have "set (trim s) \<subseteq> set (dropWhile isWhiteSpace s)"
    unfolding trim_def using set_dropWhileD by fastforce
  also have "\<dots> \<subseteq> set s" using set_dropWhileD by fastforce
  finally show ?thesis .
qed

lemma no_dollar_newPageContent:
  assumes "CHR ''$'' \<notin> set b"
  shows "CHR ''$'' \<notin> set (trim (pageHeader p @ ''\<newline>'' @ b @ ''\<newline>\<newline>''))"
proof -
  have "CHR ''$'' \<notin> set (showInt p)"
    by (rule showInt_fresh) (simp_all add: isDigit_def)
  then have "CHR ''$'' \<notin> set (pageHeader p @ ''\<newline>'' @ b @ ''\<newline>\<newline>'')"
    using assms by (simp add: pageHeader_def)
  then show ?thesis using set_trim by blast
qed

lemma sublist_split_fresh:
  assumes "c \<notin> set p"
  shows "sublist p (x @ c # y) \<longleftrightarrow> sublist p x \<or> sublist p y"
proof
  assume "sublist p (x @ c # y)"
  then consider "sublist p x" | "sublist p (c # y)"
    | xs1 xs2 where "p = xs1 @ xs2" "suffix xs1 x" "prefix xs2 (c # y)"
    unfolding sublist_append by blast
  then show "sublist p x \<or> sublist p y"
  proof cases
    case 1
    then show ?thesis ..
  next
    case 2
    then have "prefix p (c # y) \<or> sublist p y" by (simp add: sublist_Cons_right)
    then show ?thesis
    proof
      assume "prefix p (c # y)"
      with assms have "p = []" by (cases p) auto
      then show ?thesis by simp
    qed simp
  next
    case 3
    from 3(1) assms have "c \<notin> set xs2" by simp
    with 3(3) have "xs2 = []" by (cases xs2) auto
    with 3(1,2) have "suffix p x" by simp
    then have "sublist p x" by (rule suffix_imp_sublist)
    then show ?thesis ..
  qed
next
  assume "sublist p x \<or> sublist p y"
  then show "sublist p (x @ c # y)"
  proof
    assume "sublist p x"
    then obtain ps ss where "x = ps @ p @ ss" by (auto simp: sublist_def)
    then have "x @ c # y = ps @ p @ (ss @ c # y)" by simp
    then show ?thesis unfolding sublist_def by blast
  next
    assume "sublist p y"
    then obtain ps ss where "y = ps @ p @ ss" by (auto simp: sublist_def)
    then have "x @ c # y = (x @ c # ps) @ p @ ss" by simp
    then show ?thesis unfolding sublist_def by blast
  qed
qed

lemma no_mark_appended:
  assumes "\<not> sublist ''## Page'' b"
  shows "\<not> sublist ''## Page'' (headerTail p @ b @ ''\<newline>\<newline>'')"
proof -
  have nl: "CHR ''\<newline>'' \<notin> set ''## Page''" by simp
  have "CHR ''#'' \<notin> set (CHR '' '' # showInt p)"
    using showInt_fresh [of "CHR ''#''" p] by (simp add: isDigit_def)
  then have 1: "\<not> sublist ''## Page'' (CHR '' '' # showInt p)"
    using set_mono_sublist by fastforce
  have "\<not> sublist ''## Page'' ''\<newline>''"
    using sublist_length_le by fastforce
  then have 2: "\<not> sublist ''## Page'' (b @ CHR ''\<newline>'' # ''\<newline>'')"
    using assms sublist_split_fresh [OF nl, of b "''\<newline>''"] by simp
  have e: "headerTail p @ b @ ''\<newline>\<newline>'' = (CHR '' '' # showInt p) @ CHR ''\<newline>'' # (b @ CHR ''\<newline>'' # ''\<newline>'')"
    by (simp add: headerTail_def)
  have "\<not> sublist ''## Page'' ((CHR '' '' # showInt p) @ CHR ''\<newline>'' # (b @ CHR ''\<newline>'' # ''\<newline>''))"
    using 1 2 sublist_split_fresh [OF nl, of "CHR '' '' # showInt p" "b @ CHR ''\<newline>'' # ''\<newline>''"]
    by simp 
  then show ?thesis unfolding e .
qed

lemma no_mark_newChunk:
  assumes "\<not> sublist ''## Page'' b"
  shows "\<not> sublist ''## Page'' (newChunk p b)"
proof -
  have "prefix (newChunk p b) (headerTail p @ b @ ''\<newline>\<newline>'')"
    using trimEnd_prefix [of "''\<newline>'' @ b @ ''\<newline>\<newline>''"]
    by (simp add: newChunk_def headerTail_def)
  then have "sublist (newChunk p b) (headerTail p @ b @ ''\<newline>\<newline>'')"
    by (rule prefix_imp_sublist)
  with no_mark_appended [OF assms, of p] show ?thesis
    using sublist_order.order_trans by blast
qed

lemma joinChunks_middle:
  "joinChunks c0 (xs @ y # ys) = joinChunks c0 xs @ ''## Page'' @ y @ restChunks ys"
  by (simp add: joinChunks_rest restChunks_def)

lemma joinChunks_snoc: "joinChunks c0 (xs @ [y]) = joinChunks c0 xs @ ''## Page'' @ y"
  using joinChunks_middle [of c0 xs y "[]"] by (simp add: restChunks_def)

lemma upsertSection_joinChunks:
  assumes "\<not> sublist ''## Page'' c0" and "\<forall>c\<in>set cs. \<not> sublist ''## Page'' c"
    and "CHR ''$'' \<notin> set b"
  shows "upsertSection (joinChunks c0 cs) p b = joinChunks c0 (upsertChunks p b cs)"
proof (cases "List.extract (prefix (headerTail p)) cs")
  case None
  then show ?thesis
    unfolding upsertSection_def pageRegex_joinChunks [OF assms(1,2)] upsertChunks_def Let_def
    by (simp add: joinChunks_snoc pageHeader_def headerTail_def)
next
  case (Some r)
  then obtain before c after where r: "r = (before, c, after)" by (cases r) auto
  have g: "getSubstitution m pre post (trim (pageHeader p @ ''\<newline>'' @ b @ ''\<newline>\<newline>'')) =
      ''## Page'' @ newChunk p b" for m pre post
  proof -
    have "getSubstitution m pre post (trim (pageHeader p @ ''\<newline>'' @ b @ ''\<newline>\<newline>'')) =
        trim (pageHeader p @ ''\<newline>'' @ b @ ''\<newline>\<newline>'')"
      using no_dollar_newPageContent [OF assms(3)] by (rule getSubstitution_plain)
    then show ?thesis unfolding trim_newPageContent .
  qed
  show ?thesis
    unfolding upsertSection_def pageRegex_joinChunks [OF assms(1,2)] upsertChunks_def Let_def
      Some r g
    by (simp add: joinChunks_middle)
qed

lemma extract_find: "map_option (\<lambda>(before, c, after). c) (List.extract Q xs) = find Q xs"
  by (induction xs) (auto simp: extract_Nil_code extract_Cons_code split: option.splits)

lemma extractSection_joinChunks:
  assumes "\<not> sublist ''## Page'' c0" and "\<forall>c\<in>set cs. \<not> sublist ''## Page'' c"
  shows "extractSection (joinChunks c0 cs) q =
           map_option (\<lambda>c. trim (drop (length (headerTail q)) c)) (find (prefix (headerTail q)) cs)"
  unfolding extractSection_def pageRegex_joinChunks [OF assms] extract_find [symmetric]
  by (auto split: option.splits)

lemma headerTail_prefix_same:
  assumes "prefix (headerTail q) (CHR '' '' # showInt p @ w)" and w: "w = [] \<or> hd w = CHR ''\<newline>''"
  shows "q = p"
proof -
  let ?nl = "CHR ''\<newline>''"
  have nq: "?nl \<notin> set (showInt q)" by (rule showInt_fresh) (simp_all add: isDigit_def)
  have np: "?nl \<notin> set (showInt p)" by (rule showInt_fresh) (simp_all add: isDigit_def)
  from assms(1) have "prefix (showInt q @ [?nl]) (showInt p @ w)"
    by (simp add: headerTail_def)
  then consider "prefix (showInt q @ [?nl]) (showInt p)"
    | us where "showInt q @ [?nl] = showInt p @ us" "prefix us w"
    unfolding prefix_append by blast
  then show ?thesis
  proof cases
    case 1
    then have "?nl \<in> set (showInt p)" using set_mono_prefix by fastforce
    with np show ?thesis ..
  next
    case 2
    show ?thesis
    proof (cases us rule: rev_cases)
      case Nil
      with 2(1) have "?nl \<in> set (showInt p)" by (metis append_Nil2 in_set_conv_decomp)
      with np show ?thesis ..
    next
      case (snoc us' x)
      with 2(1) have e: "showInt q = showInt p @ us'" by simp
      show ?thesis
      proof (cases us')
        case Nil
        with e show ?thesis by (simp add: showInt_inj)
      next
        case (Cons y ys)
        with snoc 2(2) have "prefix (y # ys @ [x]) w" by simp
        with w have "y = ?nl" by (cases w) auto
        with e Cons have "?nl \<in> set (showInt q)" by simp
        with nq show ?thesis ..
      qed
    qed
  qed
qed

lemma other_page_not_matched:
  assumes "q \<noteq> p"
  shows "\<not> prefix (headerTail q) (headerTail p @ w)"
proof
  assume "prefix (headerTail q) (headerTail p @ w)"
  then have "prefix (headerTail q) (CHR '' '' # showInt p @ (CHR ''\<newline>'' # w))"
    by (simp add: headerTail_def)
  then have "q = p" by (rule headerTail_prefix_same) simp
  with assms show False ..
qed

lemma newChunk_not_matched:
  assumes "q \<noteq> p"
  shows "\<not> prefix (headerTail q) (newChunk p b)"
proof
  assume a: "prefix (headerTail q) (newChunk p b)"
  let ?w = "trimEnd (''\<newline>'' @ b @ ''\<newline>\<newline>'')"
  have "prefix ?w (''\<newline>'' @ b @ ''\<newline>\<newline>'')" by (rule trimEnd_prefix)
  then have "?w = [] \<or> hd ?w = CHR ''\<newline>''" by (cases ?w) auto
  with a have "q = p" unfolding newChunk_def by (rule headerTail_prefix_same)
  with assms show False ..
qed

lemma find_replace:
  "\<not> Q y \<Longrightarrow> \<not> Q y' \<Longrightarrow> find Q (ys @ y # zs) = find Q (ys @ y' # zs)"
  by (induction ys) simp_all

lemma find_snoc: "\<not> Q y \<Longrightarrow> find Q (ys @ [y]) = find Q ys"
  by (induction ys) simp_all

lemma find_upsertChunks:
  assumes "q \<noteq> p"
  shows "find (prefix (headerTail q)) (upsertChunks p b cs) = find (prefix (headerTail q)) cs"
proof (cases "List.extract (prefix (headerTail p)) cs")
  case None
  have "\<not> prefix (headerTail q) (headerTail p @ b @ ''\<newline>\<newline>'')"
    using assms by (rule other_page_not_matched)
  then show ?thesis
    unfolding upsertChunks_def None by (simp add: find_snoc)
next
  case (Some r)
  then obtain before c after where r: "r = (before, c, after)" by (cases r) auto
  from Some r have cs: "cs = before @ c # after" and c: "prefix (headerTail p) c"
    by (auto simp: extract_Some_iff)
  from c obtain w where "c = headerTail p @ w" by (auto simp: prefix_def)
  then have 1: "\<not> prefix (headerTail q) c"
    using other_page_not_matched [OF assms] by simp
  have 2: "\<not> prefix (headerTail q) (newChunk p b)"
    using assms by (rule newChunk_not_matched)
  show ?thesis
    unfolding upsertChunks_def Some r
    using find_replace [of "prefix (headerTail q)", OF 2 1, of before after] cs by simp
qed

lemma no_mark_upsertChunks:
  assumes "\<forall>c\<in>set cs. \<not> sublist ''## Page'' c" and "\<not> sublist ''## Page'' b"
  shows "\<forall>c\<in>set (upsertChunks p b cs). \<not> sublist ''## Page'' c"
proof (cases "List.extract (prefix (headerTail p)) cs")
  case None
  then show ?thesis
    unfolding upsertChunks_def using assms(1) no_mark_appended [OF assms(2), of p] by simp
next
  case (Some r)
  then obtain before c after where r: "r = (before, c, after)" by (cases r) auto
  from Some r have cs: "cs = before @ c # after"
    by (auto simp: extract_Some_iff)
  show ?thesis
    unfolding upsertChunks_def Some r
    using assms(1) no_mark_newChunk [OF assms(2), of p] cs by auto
qed

lemma upsert_isolation_regex:
  assumes "q \<noteq> p" and "CHR ''$'' \<notin> set notes" and "search ''## Page'' notes = None"
  shows "extractSection (upsertSection content p notes) q = extractSection content q"
proof -
  from assms(3) have nb: "\<not> sublist ''## Page'' notes" by (simp add: search_None_iff)
  obtain c0 cs where d: "content = joinChunks c0 cs" and c0: "\<not> sublist ''## Page'' c0"
    and cs: "\<forall>c\<in>set cs. \<not> sublist ''## Page'' c"
    using chunks_exist [of content] by blast
  have u: "upsertSection content p notes = joinChunks c0 (upsertChunks p notes cs)"
    unfolding d using c0 cs assms(2) by (rule upsertSection_joinChunks)
  have "extractSection (upsertSection content p notes) q =
      map_option (\<lambda>c. trim (drop (length (headerTail q)) c))
        (find (prefix (headerTail q)) (upsertChunks p notes cs))"
    unfolding u using c0 no_mark_upsertChunks [OF cs nb] by (rule extractSection_joinChunks)
  also have "\<dots> = map_option (\<lambda>c. trim (drop (length (headerTail q)) c))
        (find (prefix (headerTail q)) cs)"
    unfolding find_upsertChunks [OF assms(1)] ..
  also have "\<dots> = extractSection content q"
    unfolding d using c0 cs by (rule extractSection_joinChunks [symmetric])
  finally show ?thesis .
qed

section \<open>Loading a page after saving it\<close>

lemma trimEnd_blank_suffix:
  assumes "\<forall>c\<in>set w. isWhiteSpace c"
  shows "trimEnd (x @ w) = trimEnd x"
proof -
  have "dropWhile isWhiteSpace (rev w @ rev x) = dropWhile isWhiteSpace (rev x)"
    using assms by (intro dropWhile_append2) simp
  then show ?thesis by (simp add: trimEnd_def)
qed

lemma trimEnd_keep_prefix:
  assumes "\<not> blank b"
  shows "trimEnd (u @ b) = u @ trimEnd b"
proof -
  from assms obtain x where "x \<in> set (rev b)" and "\<not> isWhiteSpace x"
    by (auto simp: blank_def list_all_iff)
  then have "dropWhile isWhiteSpace (rev b @ rev u) = dropWhile isWhiteSpace (rev b) @ rev u"
    by (rule dropWhile_append1)
  then show ?thesis by (simp add: trimEnd_def)
qed

lemma trimEnd_idem: "trimEnd (trimEnd s) = trimEnd s"
  by (simp add: trimEnd_def dropWhile_idem)

lemma trim_trimEnd: "trim s = trimEnd (dropWhile isWhiteSpace s)"
  by (simp add: trim_def trimEnd_def)

lemma dropWhile_trimEnd:
  "dropWhile isWhiteSpace (trimEnd b) = trimEnd (dropWhile isWhiteSpace b)"
proof (cases "blank b")
  case True
  then have a: "\<forall>c\<in>set b. isWhiteSpace c" by (simp add: blank_def list_all_iff)
  have e1: "dropWhile isWhiteSpace b = []" using a by simp
  have e2: "trimEnd b = []" using a by (simp add: trimEnd_def)
  show ?thesis unfolding e1 e2 by (simp add: trimEnd_def)
next
  case False
  let ?l = "takeWhile isWhiteSpace b" and ?m = "dropWhile isWhiteSpace b"
  have b: "b = ?l @ ?m" by simp
  from False have "?m \<noteq> []" by (simp add: blank_def list_all_iff)
  then obtain x xs where m: "?m = x # xs" by (cases ?m) auto
  then have x: "\<not> isWhiteSpace x" by (metis hd_dropWhile list.sel(1) list.distinct(1))
  have nb: "\<not> blank ?m" using m x by (auto simp: blank_def)
  have "trimEnd b = ?l @ trimEnd ?m"
    using trimEnd_keep_prefix [OF nb, of ?l] by simp
  moreover have "trimEnd ?m = x # trimEnd xs"
    unfolding m using trimEnd_append_keep [of "[x]" xs] x by simp
  ultimately have "dropWhile isWhiteSpace (trimEnd b) = dropWhile isWhiteSpace (?l @ x # trimEnd xs)"
    by simp
  also have "\<dots> = dropWhile isWhiteSpace (x # trimEnd xs)"
    by (rule dropWhile_append2) (auto dest: set_takeWhileD)
  also have "\<dots> = x # trimEnd xs"
    using x by simp
  also have "\<dots> = trimEnd ?m" using \<open>trimEnd ?m = x # trimEnd xs\<close> by simp
  finally show ?thesis .
qed

lemma trim_of_trimEnd: "trim (trimEnd b) = trim b"
  unfolding trim_trimEnd dropWhile_trimEnd trimEnd_idem ..

lemma newChunk_nonblank:
  assumes "\<not> blank b"
  shows "newChunk p b = headerTail p @ trimEnd b"
proof -
  have "trimEnd ((''\<newline>'' @ b) @ ''\<newline>\<newline>'') = trimEnd (''\<newline>'' @ b)"
    by (rule trimEnd_blank_suffix) (simp add: isWhiteSpace_def)
  also have "\<dots> = ''\<newline>'' @ trimEnd b"
    using assms by (rule trimEnd_keep_prefix)
  finally show ?thesis by (simp add: newChunk_def headerTail_def)
qed

lemma find_upsertChunks_same:
  assumes "\<not> blank b"
  shows "map_option (\<lambda>c. trim (drop (length (headerTail p)) c))
           (find (prefix (headerTail p)) (upsertChunks p b cs)) = Some (trim b)"
proof (cases "List.extract (prefix (headerTail p)) cs")
  case None
  then have "find (prefix (headerTail p)) cs = None"
    by (simp add: extract_None_iff find_None_iff)
  then have "find (prefix (headerTail p)) (cs @ [headerTail p @ b @ ''\<newline>\<newline>'']) =
      Some (headerTail p @ b @ ''\<newline>\<newline>'')"
    by (induction cs) (auto split: if_splits)
  moreover have "trim ([] @ b @ ''\<newline>\<newline>'') = trim b"
    by (rule trim_padding) (simp_all add: isWhiteSpace_def)
  ultimately show ?thesis
    unfolding upsertChunks_def None by simp
next
  case (Some r)
  then obtain before c after where r: "r = (before, c, after)" by (cases r) auto
  from Some r have nb: "\<forall>y\<in>set before. \<not> prefix (headerTail p) y"
    by (auto simp: extract_Some_iff)
  have n: "newChunk p b = headerTail p @ trimEnd b" using assms by (rule newChunk_nonblank)
  have "find (prefix (headerTail p)) (before @ newChunk p b # after) = Some (newChunk p b)"
    using nb by (induction before) (simp_all add: n)
  then show ?thesis
    unfolding upsertChunks_def Some r by (simp add: n trim_of_trimEnd)
qed

lemma extract_after_upsert:
  assumes "CHR ''$'' \<notin> set notes" and "search ''## Page'' notes = None" and "\<not> blank notes"
  shows "extractSection (upsertSection content p notes) p = Some (trim notes)"
proof -
  from assms(2) have nb: "\<not> sublist ''## Page'' notes" by (simp add: search_None_iff)
  obtain c0 cs where d: "content = joinChunks c0 cs" and c0: "\<not> sublist ''## Page'' c0"
    and cs: "\<forall>c\<in>set cs. \<not> sublist ''## Page'' c"
    using chunks_exist [of content] by blast
  have u: "upsertSection content p notes = joinChunks c0 (upsertChunks p notes cs)"
    unfolding d using c0 cs assms(1) by (rule upsertSection_joinChunks)
  have "extractSection (upsertSection content p notes) p =
      map_option (\<lambda>c. trim (drop (length (headerTail p)) c))
        (find (prefix (headerTail p)) (upsertChunks p notes cs))"
    unfolding u using c0 no_mark_upsertChunks [OF cs nb] by (rule extractSection_joinChunks)
  also have "\<dots> = Some (trim notes)" using assms(3) by (rule find_upsertChunks_same)
  finally show ?thesis .
qed

section \<open>Documents with further sections\<close>

lemma find_append_found: "find Q xs = Some x \<Longrightarrow> find Q (xs @ ys) = Some x"
  by (induction xs) (auto split: if_splits)

lemma first_section_kept:
  assumes "extractSection content q = Some b"
  shows "extractSection (content @ ''## Page'' @ extra) q = Some b"
proof -
  obtain c0 cs where d: "content = joinChunks c0 cs" and c0: "\<not> sublist ''## Page'' c0"
    and cs: "\<forall>c\<in>set cs. \<not> sublist ''## Page'' c"
    using chunks_exist [of content] by blast
  obtain m0 ms where m: "extra = joinChunks m0 ms" and m0: "\<not> sublist ''## Page'' m0"
    and ms: "\<forall>c\<in>set ms. \<not> sublist ''## Page'' c"
    using chunks_exist [of extra] by blast
  have j: "content @ ''## Page'' @ extra = joinChunks c0 (cs @ m0 # ms)"
    unfolding d m joinChunks_middle by (simp add: joinChunks_rest)
  have all: "\<forall>c\<in>set (cs @ m0 # ms). \<not> sublist ''## Page'' c"
    using cs m0 ms by auto
  from assms have "map_option (\<lambda>c. trim (drop (length (headerTail q)) c))
      (find (prefix (headerTail q)) cs) = Some b"
    unfolding d extractSection_joinChunks [OF c0 cs] .
  then obtain c where f: "find (prefix (headerTail q)) cs = Some c"
    and b: "b = trim (drop (length (headerTail q)) c)" by auto
  from f have "find (prefix (headerTail q)) (cs @ m0 # ms) = Some c"
    by (rule find_append_found)
  then show ?thesis
    unfolding j extractSection_joinChunks [OF c0 all] by (simp add: b)
qed

lemma matchMarker_append_lt_full:
  assumes c: "isLineTerminator c"
  shows "matchMarker (s @ c # rest) =
           map_option (\<lambda>(ds, r). (ds, r @ c # rest)) (matchMarker s)"
proof -
  have nd: "\<not> isDigit c" using c by (rule isLineTerminator_not_digit)
  have "c \<notin> set ''## Page ''" using c by (auto simp: isLineTerminator_def)
  then have p: "prefix ''## Page '' (s @ c # rest) \<longleftrightarrow> prefix ''## Page '' s"
    by (rule prefix_append_fresh)
  show ?thesis
  proof (cases "prefix ''## Page '' s")
    case False
    with p show ?thesis by (simp add: matchMarker_def)
  next
    case True
    then obtain r where s: "s = ''## Page '' @ r" by (auto simp: prefix_def)
    have tw: "takeWhile isDigit (r @ c # rest) = takeWhile isDigit r"
      using nd by (induction r) auto
    have dw: "dropWhile isDigit (r @ c # rest) = dropWhile isDigit r @ c # rest"
      using nd by (induction r) auto
    have l: "matchMarker (s @ c # rest) =
       (if takeWhile isDigit r \<noteq> [] \<and>
         (dropWhile isDigit r @ c # rest = [] \<or> isLineTerminator (hd (dropWhile isDigit r @ c # rest)))
      then Some (takeWhile isDigit r, dropWhile isDigit r @ c # rest) else None)"
      using matchMarker_page [of "r @ c # rest"] unfolding s tw dw by simp
    show ?thesis
    proof (cases "dropWhile isDigit r")
      case Nil
      show ?thesis
        unfolding l unfolding s matchMarker_page Nil using c by simp
    next
      case (Cons y ys)
      show ?thesis
        unfolding l unfolding s matchMarker_page Cons by simp
    qed
  qed
qed

lemma splitScan_nonempty: "splitScan bol acc s \<noteq> []"
  by (induction bol acc s rule: splitScan.induct) (auto split: option.splits)

lemma splitScan_odd: "odd (length (splitScan bol acc s))"
  by (induction bol acc s rule: splitScan.induct) (auto split: option.splits)

lemma splitScan_append_lt:
  assumes c: "isLineTerminator c"
  shows "splitScan bol acc (s @ c # rest) =
           butlast (splitScan bol acc s) @
           splitScan True (c # rev (last (splitScan bol acc s))) rest"
proof (induction bol acc s rule: splitScan.induct)
  case (1 bol acc)
  have "matchMarker (c # rest) = None"
    using c by (intro matchMarker_not_hash) (auto simp: isLineTerminator_def)
  then show ?case using c by simp
next
  case (2 bol acc x xs)
  show ?case
  proof (cases "if bol then matchMarker (x # xs) else None")
    case None
    then have n: "bol \<Longrightarrow> matchMarker (x # xs @ c # rest) = None"
      using matchMarker_append_lt_full [OF c, of "x # xs" rest] by (simp split: if_splits)
    have "splitScan bol acc ((x # xs) @ c # rest) =
        splitScan (isLineTerminator x) (x # acc) (xs @ c # rest)"
      using n by (cases bol) simp_all
    also have "\<dots> = butlast (splitScan (isLineTerminator x) (x # acc) xs) @
           splitScan True (c # rev (last (splitScan (isLineTerminator x) (x # acc) xs))) rest"
      using None by (rule "2.IH"(1))
    also have "splitScan (isLineTerminator x) (x # acc) xs = splitScan bol acc (x # xs)"
      using None by simp
    finally show ?thesis .
  next
    case (Some m)
    then obtain ds r where m: "m = (ds, r)" by (cases m) auto
    from Some m have bol: bol by (simp split: if_splits)
    from Some m have s: "matchMarker (x # xs @ c # rest) = Some (ds, r @ c # rest)"
      using matchMarker_append_lt_full [OF c, of "x # xs" rest] by (simp split: if_splits)
    have ih: "splitScan False [] (r @ c # rest) =
        butlast (splitScan False [] r) @ splitScan True (c # rev (last (splitScan False [] r))) rest"
      using Some m by (intro "2.IH"(2)) auto
    have a: "splitScan bol acc ((x # xs) @ c # rest) =
        rev acc # ds # splitScan False [] (r @ c # rest)"
      using s bol by simp
    have b: "splitScan bol acc (x # xs) = rev acc # ds # splitScan False [] r"
      using Some m by simp
    show ?thesis
      unfolding a b ih using splitScan_nonempty [of False "[]" r] by simp
  qed
qed

lemma splitScan_markerFree_end: "markerFree bol s \<Longrightarrow> splitScan bol acc s = [rev acc @ s]"
proof (induction s arbitrary: bol acc)
  case Nil
  then show ?case by simp
next
  case (Cons x xs)
  then show ?case by (cases bol) simp_all
qed

lemma parseLoop_last_section:
  assumes "even (length pieces)"
  shows "parseLoop m (pieces @ [ds, t]) =
           (if trim t \<noteq> placeholder then (parseLoop m pieces)(parseInt ds \<mapsto> trim t)
            else parseLoop m pieces)"
  using assms by (induction m pieces rule: parseLoop.induct) simp_all

lemma parse_appended_section:
  assumes "markerFree True body" and "trim body \<noteq> placeholder"
  shows "parseExistingNotes (content @ ''\<newline>## Page '' @ showNat k @ ''\<newline>'' @ body) k =
           Some (trim body)"
proof -
  let ?nl = "CHR ''\<newline>''"
  let ?S = "splitPages content"
  have lt: "isLineTerminator ?nl" by (simp add: isLineTerminator_def)
  have "splitPages (content @ ?nl # (''## Page '' @ showNat k @ ?nl # body)) =
      butlast ?S @ splitScan True (?nl # rev (last ?S)) (''## Page '' @ showNat k @ ?nl # body)"
    unfolding splitPages_def using lt by (rule splitScan_append_lt)
  also have "splitScan True (?nl # rev (last ?S)) (''## Page '' @ showNat k @ ?nl # body) =
      rev (?nl # rev (last ?S)) # showNat k # splitScan False [] (?nl # body)"
    using matchMarker_block by (rule splitScan_match)
  also have "splitScan False [] (?nl # body) = splitScan True [?nl] body"
    by (simp del: splitScan.simps add: splitScan_newline)
  also have "\<dots> = [rev [?nl] @ body]"
    using assms(1) by (rule splitScan_markerFree_end)
  finally have sp: "splitPages (content @ ?nl # (''## Page '' @ showNat k @ ?nl # body)) =
      (butlast ?S @ [last ?S @ [?nl]]) @ [showNat k, ?nl # body]"
    by simp
  have ne: "?S \<noteq> []" unfolding splitPages_def by (rule splitScan_nonempty)
  have "odd (length ?S)" unfolding splitPages_def by (rule splitScan_odd)
  then have ev: "even (length (tl (butlast ?S @ [last ?S @ [?nl]])))"
    using ne by simp
  have tl: "tl ((butlast ?S @ [last ?S @ [?nl]]) @ [showNat k, ?nl # body]) =
      tl (butlast ?S @ [last ?S @ [?nl]]) @ [showNat k, ?nl # body]"
    by (rule tl_append2) simp
  have t: "trim (?nl # body) = trim body"
    using trim_padding [of "[?nl]" "[]" body] by (simp add: isWhiteSpace_def)
  have e: "content @ ''\<newline>## Page '' @ showNat k @ ''\<newline>'' @ body =
      content @ ?nl # (''## Page '' @ showNat k @ ?nl # body)" by simp
  show ?thesis
    unfolding e parseExistingNotes_def sp tl parseLoop_last_section [OF ev] t
    using assms(2) by (simp add: parseInt_showNat)
qed

section \<open>Sequences of saves\<close>

lemma extract_saveSequence:
  assumes "list_all (\<lambda>(q, b). cleanBody b) saves"
  shows "extractSection (saveSequence content saves) p =
           (case lastBody p saves of Some b \<Rightarrow> Some (trim b) | None \<Rightarrow> extractSection content p)"
  using assms
proof (induction saves arbitrary: content)
  case Nil
  then show ?case by simp
next
  case (Cons s saves)
  obtain q b where s: "s = (q, b)" by (cases s)
  from Cons.prems s have cb: "cleanBody b" and rest: "list_all (\<lambda>(q, b). cleanBody b) saves"
    by simp_all
  have ih: "extractSection (saveSequence (upsertSection content q b) saves) p =
      (case lastBody p saves of Some b' \<Rightarrow> Some (trim b')
       | None \<Rightarrow> extractSection (upsertSection content q b) p)"
    using rest by (rule Cons.IH)
  have one: "extractSection (upsertSection content q b) p =
      (if q = p then Some (trim b) else extractSection content p)"
  proof (cases "q = p")
    case True
    then show ?thesis
      using cb extract_after_upsert [of b content p] by (simp add: cleanBody_def)
  next
    case False
    then have "p \<noteq> q" by simp
    then show ?thesis
      using cb upsert_isolation_regex [of p q b content] False by (simp add: cleanBody_def)
  qed
  show ?case
    unfolding s saveSequence.simps ih one by (simp split: option.splits)
qed

lemma storedBody_other: "q \<noteq> n \<Longrightarrow> storedBody (m(n \<mapsto> b)) q = storedBody m q"
  by (simp add: storedBody_def)

lemma joinChunks_snoc_inject:
  "joinChunks c0 (cs @ [x]) = joinChunks c0 (cs @ [y]) \<Longrightarrow> x = y"
  by (simp add: joinChunks_snoc)

lemma newChunk_not_appended: "newChunk p b \<noteq> headerTail p @ b @ ''\<newline>\<newline>''"
proof
  assume e: "newChunk p b = headerTail p @ b @ ''\<newline>\<newline>''"
  let ?y = "''\<newline>'' @ b @ ''\<newline>\<newline>''"
  from e have "trimEnd ?y = ?y" by (simp add: newChunk_def headerTail_def)
  then have "dropWhile isWhiteSpace (rev ?y) = rev ?y"
    unfolding trimEnd_def by (metis rev_rev_ident)
  moreover have "hd (rev ?y) = CHR ''\<newline>''" by simp
  moreover have "rev ?y \<noteq> []" by simp
  ultimately have "\<not> isWhiteSpace (CHR ''\<newline>'')"
    by (metis hd_dropWhile)
  then show False by (simp add: isWhiteSpace_def)
qed

text \<open>
  The first save of a page is never a fixed point: the section it appends ends with two
  line feeds, which the second save of the same body takes away.
\<close>

lemma first_save_not_idempotent:
  assumes "pageRegex p content = None" and "CHR ''$'' \<notin> set b"
    and "search ''## Page'' b = None"
  shows "upsertSection (upsertSection content p b) p b \<noteq> upsertSection content p b"
proof -
  from assms(3) have nb: "\<not> sublist ''## Page'' b" by (simp add: search_None_iff)
  obtain c0 cs where d: "content = joinChunks c0 cs" and c0: "\<not> sublist ''## Page'' c0"
    and cs: "\<forall>c\<in>set cs. \<not> sublist ''## Page'' c"
    using chunks_exist [of content] by blast
  let ?A = "headerTail p @ b @ ''\<newline>\<newline>''"
  from assms(1) have none: "List.extract (prefix (headerTail p)) cs = None"
    unfolding d pageRegex_joinChunks [OF c0 cs] by (auto split: option.splits)
  then have u1: "upsertChunks p b cs = cs @ [?A]" by (simp add: upsertChunks_def)
  from none have "\<forall>c\<in>set cs. \<not> prefix (headerTail p) c" by (simp add: extract_None_iff)
  then have "List.extract (prefix (headerTail p)) (cs @ [?A]) = Some (cs, ?A, [])"
    by (simp add: extract_Some_iff)
  then have u2: "upsertChunks p b (cs @ [?A]) = cs @ [newChunk p b]"
    by (simp add: upsertChunks_def)
  have once: "upsertSection content p b = joinChunks c0 (cs @ [?A])"
    unfolding d upsertSection_joinChunks [OF c0 cs assms(2)] u1 ..
  have all: "\<forall>c\<in>set (cs @ [?A]). \<not> sublist ''## Page'' c"
    using cs no_mark_appended [OF nb, of p] by simp
  have twice: "upsertSection (upsertSection content p b) p b = joinChunks c0 (cs @ [newChunk p b])"
    unfolding once upsertSection_joinChunks [OF c0 all assms(2)] u2 ..
  have "joinChunks c0 (cs @ [newChunk p b]) \<noteq> joinChunks c0 (cs @ [?A])"
    using newChunk_not_appended [of p b] by (simp add: joinChunks_snoc)
  then show ?thesis
    unfolding twice unfolding once .
qed

section \<open>Saves and loads: round trip, isolation, and where the per-page notes go wrong\<close>

text \<open>
  Claim C2 (round trip), as amended. What comes back is the last body trimmed of its
  surrounding white space, not the body itself. For the notes document of the view: the
  notes are saved by \<open>saveAllNotesToFile\<close> and read back by \<open>parseExistingNotes\<close>; a
  page of the document whose last body is not empty and, once trimmed, is not the
  placeholder comes back trimmed, provided no body holds a marker line and the names of
  the PDF hold no line break. For the per-page notes: after any sequence of saves by
  \<open>saveNotes\<close> on any content, with bodies that are not blank and hold neither a dollar
  sign nor the text \<open>## Page\<close>, \<open>loadNotes\<close> returns for a page the last body saved
  for it, trimmed.
\<close>

theorem reload_returns_trimmed_body:
  "(reloadable a \<and> 1 \<le> n \<and> n \<le> numPages a \<and> pageNotes a n = Some body \<and> body \<noteq> [] \<and>
      trim body \<noteq> placeholder \<longrightarrow>
      parseExistingNotes (notesDocument a) n = Some (trim body)) \<and>
   (list_all (\<lambda>(q, b). cleanBody b) saves \<and> lastBody p saves = Some b \<longrightarrow>
      extractSection (saveSequence content saves) p = Some (trim b))"
  by (simp add: parse_notesDocument storedBody_def extract_saveSequence)

text \<open>Two pages of the view; three saves on a new notes file, two of them for page 1.\<close>

theorem reload_returns_trimmed_body_witness:
  "parseExistingNotes
     (notesDocument (exampleApp\<lparr>pageNotes := [1 \<mapsto> ''  first line  '', 2 \<mapsto> ''second'']\<rparr>)) 1 =
     Some ''first line'' \<and>
   extractSection
     (saveSequence ''# PDF Notes\<newline>\<newline>'' [(1, '' first ''), (2, ''two''), (1, ''again '')]) 1 =
     Some ''again''"
proof -
  let ?a = "exampleApp\<lparr>pageNotes := [1 \<mapsto> ''  first line  '', 2 \<mapsto> ''second'']\<rparr>"
  let ?saves = "[(1::int, '' first ''), (2, ''two''), (1, ''again '')]"
  have r: "reloadable ?a" by code_simp
  have n: "(1::nat) \<le> numPages ?a" by code_simp
  have b: "pageNotes ?a 1 = Some ''  first line  ''" by simp
  have t: "trim ''  first line  '' \<noteq> placeholder" by code_simp
  have e: "trim ''  first line  '' = ''first line''" by code_simp
  have c: "list_all (\<lambda>(q, b). cleanBody b) ?saves" by code_simp
  have l: "lastBody 1 ?saves = Some ''again ''" by code_simp
  have e': "trim ''again '' = ''again''" by code_simp
  from reload_returns_trimmed_body [where a = ?a and n = 1 and body = "''  first line  ''"
      and saves = ?saves and p = 1 and b = "''again ''" and content = "''# PDF Notes\<newline>\<newline>''"]
    r n b t c l
  have "parseExistingNotes (notesDocument ?a) 1 = Some (trim ''  first line  '')"
    and "extractSection (saveSequence ''# PDF Notes\<newline>\<newline>'' ?saves) 1 = Some (trim ''again '')"
    by simp_all
  then show ?thesis unfolding e e' by simp
qed

text \<open>
  Claim C2 as stated fails: the body \<open>'' x''\<close> of page 1 comes back as \<open>''x''\<close>, from
  the notes document of the view and from the per-page notes alike.
\<close>

theorem reload_trims_body_counterexample:
  "pageNotes (exampleApp\<lparr>pageNotes := [1 \<mapsto> '' x'']\<rparr>) 1 = Some '' x'' \<and>
   parseExistingNotes (notesDocument (exampleApp\<lparr>pageNotes := [1 \<mapsto> '' x'']\<rparr>)) 1 = Some ''x'' \<and>
   extractSection (upsertSection ''# PDF Notes\<newline>\<newline>'' 1 '' x'') 1 = Some ''x''"
  by code_simp

text \<open>
  Claim C4 (section isolation), as amended. For the per-page notes: when the body holds
  neither a dollar sign nor the text \<open>## Page\<close>, saving it for page \<open>p\<close> leaves what
  \<open>loadNotes\<close> returns for every other page \<open>q\<close> as it was, whether \<open>q\<close> has a
  section or not, for every content of the notes file. For the notes document of the
  view: a new body for page \<open>n\<close> leaves what is reloaded for every other page as it
  was, when no body, before and after, holds a marker line.
\<close>

theorem upsert_isolation:
  "(q \<noteq> p \<and> CHR ''$'' \<notin> set body \<and> search ''## Page'' body = None \<longrightarrow>
      extractSection (upsertSection content p body) q = extractSection content q) \<and>
   (m \<noteq> n \<and> reloadable a \<and> reloadable (a\<lparr>pageNotes := (pageNotes a)(n \<mapsto> b)\<rparr>) \<longrightarrow>
      parseExistingNotes (notesDocument (a\<lparr>pageNotes := (pageNotes a)(n \<mapsto> b)\<rparr>)) m =
        parseExistingNotes (notesDocument a) m)"
proof -
  have 1: "q \<noteq> p \<and> CHR ''$'' \<notin> set body \<and> search ''## Page'' body = None \<longrightarrow>
      extractSection (upsertSection content p body) q = extractSection content q"
    using upsert_isolation_regex by blast
  have 2: "m \<noteq> n \<and> reloadable a \<and> reloadable (a\<lparr>pageNotes := (pageNotes a)(n \<mapsto> b)\<rparr>) \<longrightarrow>
      parseExistingNotes (notesDocument (a\<lparr>pageNotes := (pageNotes a)(n \<mapsto> b)\<rparr>)) m =
        parseExistingNotes (notesDocument a) m"
    by (simp add: parse_notesDocument storedBody_other numPages_def)
  from 1 2 show ?thesis ..
qed

text \<open>Saving \<open>c\<close> for page 1 leaves page 2 with its body; a body for page 2 leaves page 1.\<close>

theorem upsert_isolation_witness:
  "extractSection (upsertSection exampleNotes 1 ''c'') 2 = Some ''b'' \<and>
   parseExistingNotes (notesDocument (exampleApp\<lparr>pageNotes := (pageNotes exampleApp)(2 \<mapsto> ''two'')\<rparr>)) 1 =
     Some ''old''"
proof -
  let ?a' = "exampleApp\<lparr>pageNotes := (pageNotes exampleApp)(2 \<mapsto> ''two'')\<rparr>"
  have h1: "(2::int) \<noteq> 1" by simp
  have h2: "CHR ''$'' \<notin> set ''c''" by simp
  have h3: "search ''## Page'' ''c'' = None" by code_simp
  have e: "extractSection exampleNotes 2 = Some ''b''" by code_simp
  have h4: "(1::nat) \<noteq> 2" by simp
  have r: "reloadable exampleApp" by code_simp
  have r': "reloadable ?a'" by code_simp
  have e': "parseExistingNotes (notesDocument exampleApp) 1 = Some ''old''" by code_simp
  from upsert_isolation [where q = 2 and p = 1 and body = "''c''" and content = exampleNotes
      and m = 1 and n = 2 and a = exampleApp and b = "''two''"] h1 h2 h3 h4 r r'
  have "extractSection (upsertSection exampleNotes 1 ''c'') 2 = extractSection exampleNotes 2"
    and "parseExistingNotes (notesDocument ?a') 1 = parseExistingNotes (notesDocument exampleApp) 1"
    by simp_all
  then show ?thesis unfolding e e' by simp
qed

text \<open>
  Claim C4 as stated fails: a body for page 1 that holds a header of page 2 changes what
  is returned for page 2.
\<close>

theorem upsert_isolation_counterexample:
  "extractSection exampleNotes 2 = Some ''b'' \<and>
   extractSection (upsertSection exampleNotes 1 ''## Page 2\<newline>z'') 2 = Some ''z''"
  by code_simp

text \<open>
  Claim C1 (idempotence). The claim fails on \<open>saveNotes\<close>: the first save of a page
  appends the header, the body and two line feeds; the second save of the same body finds
  the section and replaces it by the trimmed text, without the line feeds (lemma
  \<open>first_save_not_idempotent\<close>: so it is for every page without a section). Here on
  the content of a new notes file, page 1, body \<open>x\<close>.
\<close>

theorem second_save_changes_document:
  "upsertSection ''# PDF Notes\<newline>\<newline>'' 1 ''x'' = ''# PDF Notes\<newline>\<newline>## Page 1\<newline>x\<newline>\<newline>'' \<and>
   upsertSection (upsertSection ''# PDF Notes\<newline>\<newline>'' 1 ''x'') 1 ''x'' = ''# PDF Notes\<newline>\<newline>## Page 1\<newline>x''"
  by code_simp

text \<open>
  Claim C7 (duplicate markers), as amended. \<open>loadNotes\<close> keeps to the first section of
  a page: what it returns for a page that has a section does not change when further
  sections, of the same page or of others, follow. \<open>parseExistingNotes\<close> does the
  opposite: a section added after any content, with a body free of marker lines whose
  trimmed text is not the placeholder, is the one returned for its page, also when the
  content before it has a section of that page. Both are total: no document makes them fail.
\<close>

theorem duplicate_markers:
  "(extractSection doc q = Some b \<longrightarrow>
      extractSection (doc @ ''## Page'' @ extra) q = Some b) \<and>
   (markerFree True body \<and> trim body \<noteq> placeholder \<longrightarrow>
      parseExistingNotes (content @ ''\<newline>## Page '' @ showNat k @ ''\<newline>'' @ body) k =
        Some (trim body))"
  using first_section_kept parse_appended_section by blast

text \<open>A document with two sections of page 1.\<close>

theorem duplicate_markers_witness:
  "extractSection ''## Page 1\<newline>first\<newline>## Page 1\<newline>second'' 1 = Some ''first'' \<and>
   parseExistingNotes ''## Page 1\<newline>first\<newline>## Page 1\<newline>second'' 1 = Some ''second''"
proof -
  have e: "extractSection ''## Page 1\<newline>first\<newline>'' 1 = Some ''first''" by code_simp
  have m: "markerFree True ''second''" by code_simp
  have t: "trim ''second'' \<noteq> placeholder" by code_simp
  have t': "trim ''second'' = ''second''" by code_simp
  have s: "showNat 1 = ''1''" by code_simp
  from duplicate_markers [where doc = "''## Page 1\<newline>first\<newline>''" and q = 1
      and b = "''first''" and extra = "'' 1\<newline>second''" and body = "''second''"
      and content = "''## Page 1\<newline>first''" and k = 1]
    e m t
  have "extractSection (''## Page 1\<newline>first\<newline>'' @ ''## Page'' @ '' 1\<newline>second'') 1 = Some ''first''"
    and "parseExistingNotes (''## Page 1\<newline>first'' @ ''\<newline>## Page '' @ showNat 1 @ ''\<newline>'' @ ''second'') 1 = Some (trim ''second'')"
    by blast+
  then show ?thesis unfolding s t' by simp
qed

text \<open>
  Claim C7 as stated fails on \<open>parseExistingNotes\<close>: of two sections of page 1 the
  second is returned.
\<close>

theorem duplicate_markers_counterexample:
  "parseExistingNotes ''## Page 1\<newline>first\<newline>## Page 1\<newline>second'' 1 = Some ''second''"
  by code_simp

text \<open>
  Claim C8 (marker grammar). The claim fails on \<open>loadNotes\<close> and \<open>saveNotes\<close>, whose
  expressions have no line anchors: the text \<open>## Page\<close> in the middle of a line of a
  body ends the section (the body is cut when loaded, and the rest of the line is left
  behind when the section is replaced), and a header in the middle of a line starts a
  section. \<open>parseExistingNotes\<close>, with the anchored expression, returns the whole body.
\<close>

theorem marker_text_inside_body:
  "extractSection ''## Page 1\<newline>see ## Page 2 for details\<newline>'' 1 = Some ''see'' \<and>
   upsertSection ''## Page 1\<newline>see ## Page 2 for details\<newline>'' 1 ''new'' =
     ''## Page 1\<newline>new## Page 2 for details\<newline>'' \<and>
   extractSection ''Intro## Page 1\<newline>hello'' 1 = Some ''hello'' \<and>
   parseExistingNotes ''## Page 1\<newline>see ## Page 2 for details\<newline>'' 1 =
     Some ''see ## Page 2 for details''"
  by code_simp

lemma viewStep_pagesFromOne: "pagesFromOne v \<Longrightarrow> pagesFromOne (viewStep e v)"
proof (cases e)
  case (PageRendered p)
  assume "pagesFromOne v"
  then show ?thesis
    unfolding PageRendered
    by (auto simp: pagesFromOne_def pageRendered_def updateNoteSection_def list_all_iff
        dest: notin_set_remove1 split: option.splits)
next
  case (PageFailed p m)
  assume "pagesFromOne v"
  then show ?thesis
    unfolding PageFailed
    by (auto simp: pagesFromOne_def pageFailed_def list_all_iff dest: notin_set_remove1)
next
  case (NoteBlur t)
  assume "pagesFromOne v"
  then show ?thesis
    unfolding NoteBlur
    by (auto simp: pagesFromOne_def noteBlur_def split: option.splits prod.splits)
qed (auto simp: pagesFromOne_def prevButtonClick_def pageInputChange_def nextButtonClick_def
      prevLinkClick_def nextLinkClick_def showAllNotes_def renderPage_def updateNoteSection_def
      list_all_iff split: option.splits)

lemma runView_pagesFromOne: "pagesFromOne v \<Longrightarrow> pagesFromOne (runView es v)"
  by (induction es arbitrary: v) (simp_all add: viewStep_pagesFromOne)


text \<open>
  Claim C9 (invalid page number), as amended. There is no error for an invalid page
  number; a page number below 1 is kept from \<open>loadNotes\<close> and \<open>saveNotes\<close> by the
  navigation of the view. A value of the page input that reads as a number below 1, or
  as no number, and a click on the previous-page button on page 1 are dropped at once:
  the handler returns with the view as it was, so no notice is shown, no file is read or
  written and no notes operation is called. From a view whose page numbers are at least
  1, after any sequence of events every page number is at least 1, that of every call of
  \<open>loadNotes\<close> and \<open>saveNotes\<close> included. A value of the page input from 1 to the
  number of pages is rendered, and the notes of that page are loaded. (The last two for a
  PDF of at most \<open>2^53\<close> pages, up to where the model of \<open>parseInt\<close> is exact.)
\<close>

theorem invalid_page_kept_out:
  "((case parseIntText inputValue of None \<Rightarrow> True | Some newPage \<Rightarrow> newPage < 1) \<longrightarrow>
      pageInputChange inputValue v = v) \<and>
   (viewCurrentPage v \<le> 1 \<longrightarrow> prevButtonClick v = v) \<and>
   (pagesFromOne v \<and> viewNumPages v \<le> 2 ^ 53 \<longrightarrow> pagesFromOne (runView es v)) \<and>
   (parseIntText accepted = Some n \<and> 1 \<le> n \<and> n \<le> viewNumPages v \<and>
    viewNumPages v \<le> 2 ^ 53 \<and> viewPdfPath v = Some path \<and> path \<noteq> [] \<longrightarrow>
      viewCurrentPage (runView [PageInput accepted, PageRendered n] v) = n \<and>
      notesCalls (runView [PageInput accepted, PageRendered n] v) = notesCalls v @ [(Load, n)])"
proof -
  have 1: "(case parseIntText inputValue of None \<Rightarrow> True | Some newPage \<Rightarrow> newPage < 1) \<longrightarrow>
      pageInputChange inputValue v = v"
    by (simp add: pageInputChange_def split: option.splits)
  have 2: "viewCurrentPage v \<le> 1 \<longrightarrow> prevButtonClick v = v"
    by (simp add: prevButtonClick_def)
  have 3: "pagesFromOne v \<and> viewNumPages v \<le> 2 ^ 53 \<longrightarrow> pagesFromOne (runView es v)"
    by (simp add: runView_pagesFromOne)
  have 4: "parseIntText accepted = Some n \<and> 1 \<le> n \<and> n \<le> viewNumPages v \<and>
    viewNumPages v \<le> 2 ^ 53 \<and> viewPdfPath v = Some path \<and> path \<noteq> [] \<longrightarrow>
      viewCurrentPage (runView [PageInput accepted, PageRendered n] v) = n \<and>
      notesCalls (runView [PageInput accepted, PageRendered n] v) = notesCalls v @ [(Load, n)]"
    by (simp add: pageInputChange_def renderPage_def pageRendered_def updateNoteSection_def)
  from 1 2 3 4 show ?thesis by blast
qed

text \<open>
  The page input with \<open>-3\<close>, the previous-page button on page 1, a sequence of events
  with three requests that are dropped, and the page input with \<open>2\<close>.
\<close>

theorem invalid_page_kept_out_witness:
  "pageInputChange ''-3'' exampleView = exampleView \<and>
   prevButtonClick exampleView = exampleView \<and>
   pagesFromOne
     (runView [PrevButton, NextButton, PageRendered 2, NoteBlur ''hi'', PrevLink,
               PageInput ''0'', PageRendered 1, PrevLink, ViewAllLink] exampleView) \<and>
   viewCurrentPage (runView [PageInput ''2'', PageRendered 2] exampleView) = 2 \<and>
   notesCalls (runView [PageInput ''2'', PageRendered 2] exampleView) = [(Load, 1), (Load, 2)]"
proof -
  have a: "case parseIntText ''-3'' of None \<Rightarrow> True | Some newPage \<Rightarrow> newPage < 1" by code_simp
  have b: "viewCurrentPage exampleView \<le> 1" by (simp add: exampleView_def)
  have c: "pagesFromOne exampleView" by (simp add: pagesFromOne_def exampleView_def)
  have d: "parseIntText ''2'' = Some 2" by code_simp
  have e: "(1::int) \<le> 2" "2 \<le> viewNumPages exampleView" "viewNumPages exampleView \<le> 2 ^ 53"
    "viewPdfPath exampleView = Some ''a.pdf''" "''a.pdf'' \<noteq> []"
    by (simp_all add: exampleView_def)
  have f: "notesCalls exampleView = [(Load, 1)]" by (simp add: exampleView_def)
  from invalid_page_kept_out [where inputValue = "''-3''" and v = exampleView
      and es = "[PrevButton, NextButton, PageRendered 2, NoteBlur ''hi'', PrevLink,
               PageInput ''0'', PageRendered 1, PrevLink, ViewAllLink]"
      and accepted = "''2''" and n = 2 and path = "''a.pdf''"] a b c d e
  have 1: "pageInputChange ''-3'' exampleView = exampleView"
    and 2: "prevButtonClick exampleView = exampleView"
    and 3: "pagesFromOne
      (runView [PrevButton, NextButton, PageRendered 2, NoteBlur ''hi'', PrevLink,
                PageInput ''0'', PageRendered 1, PrevLink, ViewAllLink] exampleView)"
    and 4: "viewCurrentPage (runView [PageInput ''2'', PageRendered 2] exampleView) = 2"
    and 5: "notesCalls (runView [PageInput ''2'', PageRendered 2] exampleView) =
      notesCalls exampleView @ [(Load, 2)]"
    by blast+
  from 5 have 6: "notesCalls (runView [PageInput ''2'', PageRendered 2] exampleView) =
      [(Load, 1), (Load, 2)]"
    unfolding f by simp
  from 1 2 3 4 6 show ?thesis by blast
qed

text \<open>
  Claim C9 as stated fails: on the view that shows page 1, the page input with \<open>0\<close>
  asks for page 0, and the request is not rejected with an error: the handler returns
  with the view as it was, and no notice is shown.
\<close>

theorem invalid_page_kept_out_counterexample:
  "parseIntText ''0'' = Some 0 \<and>
   runView [PageInput ''0''] exampleView = exampleView \<and>
   viewNotices (runView [PageInput ''0''] exampleView) = []"
proof -
  have p: "parseIntText ''0'' = Some 0" by code_simp
  show ?thesis by (simp add: p pageInputChange_def exampleView_def)
qed

end
